theory Spec2Isabelle
  imports Main
begin

section \<open>JavaScript containers and the logger\<close>

text \<open>
  A JavaScript \<open>Map\<close> keeps its keys in insertion order and holds each key once.
  It is an association list here: \<open>map_set\<close> overwrites the value of a key that is
  present, where it stands, and appends a new key at the end; \<open>map_keys\<close> is the
  iteration order of \<open>Map.prototype.keys()\<close>.
\<close>

type_synonym 'v js_map = "(string \<times> 'v) list"

definition map_has :: "'v js_map \<Rightarrow> string \<Rightarrow> bool" where
  "map_has m k = (k \<in> set (map fst m))"

definition map_get :: "'v js_map \<Rightarrow> string \<Rightarrow> 'v option" where
  "map_get m k = map_of m k"

definition map_keys :: "'v js_map \<Rightarrow> string list" where
  "map_keys m = map fst m"

fun map_set :: "'v js_map \<Rightarrow> string \<Rightarrow> 'v \<Rightarrow> 'v js_map" where
  "map_set [] k v = [(k, v)]"
| "map_set ((k', v') # m) k v =
     (if k' = k then (k, v) # m else (k', v') # map_set m k v)"

text \<open>
  What a program prints is kept as a list of entries, oldest first: an entry is the
  level and the message of a printed line.
\<close>

datatype log_entry = LogError string | LogWarn string

text \<open>The message of an exception caught in the configuration store.\<close>

type_synonym js_error = string

section \<open>The logger (server/handlers/console.js)\<close>

text \<open>
  A value that was thrown, or that a promise was rejected with, as far as the logger
  tells values apart:
  \<^item> \<open>ErrorObject m\<close>: an instance of \<open>Error\<close> with the string \<open>m\<close> as message and a
    string as stack;
  \<^item> \<open>KeyedObject\<close>: another object with own enumerable keys that \<open>JSON.stringify\<close>
    serialises;
  \<^item> \<open>Unserializable m\<close>: another object with own enumerable keys on which
    \<open>JSON.stringify\<close> throws a TypeError with message \<open>m\<close> (it is cyclic, or holds a
    BigInt);
  \<^item> \<open>Bare\<close>: \<open>null\<close>, \<open>undefined\<close>, a falsy primitive, or an object without own
    enumerable keys;
  \<^item> \<open>Truthy t\<close>: a truthy primitive or function other than a symbol, \<open>t\<close> the text
    that a template literal makes of it;
  \<^item> \<open>SymbolValue\<close>: a symbol, which a template literal cannot convert.
\<close>

datatype thrown =
  ErrorObject string
| KeyedObject
| Unserializable string
| Bare
| Truthy string
| SymbolValue

text \<open>\<open>ERROR_FILTERS.patterns\<close> and \<open>String.prototype.includes\<close>.\<close>

definition ERROR_FILTERS_patterns :: "string list" where
  "ERROR_FILTERS_patterns =
     [[CHR 0x27] @ ''app'' @ [CHR 0x27] @ '' is missing '' @ [CHR 0x27] @ ''framework''
        @ [CHR 0x27],
      ''Bun.serve() needs either'',
      ''routes object'',
      ''fetch handler'',
      ''ERR_INVALID_ARG_TYPE'',
      ''Learn more at https://bun.sh/docs/api/http'',
      ''TypeError: Bun.serve()'',
      ''Or a fetch handler'']"

fun starts_with :: "string \<Rightarrow> string \<Rightarrow> bool" where
  "starts_with s [] = True"
| "starts_with [] (c # p) = False"
| "starts_with (x # s) (c # p) = (x = c \<and> starts_with s p)"

fun includes_text :: "string \<Rightarrow> string \<Rightarrow> bool" where
  "includes_text [] p = (p = [])"
| "includes_text (x # s) p = (starts_with (x # s) p \<or> includes_text s p)"

text \<open>
  \<open>ERROR_FILTERS.shouldFilter\<close> on a string: the empty string is falsy and is never
  filtered.
\<close>

definition shouldFilter :: "string \<Rightarrow> bool" where
  "shouldFilter errorString =
     (errorString \<noteq> [] \<and> list_ex (includes_text errorString) ERROR_FILTERS_patterns)"

text \<open>
  The levels that the loader uses, and the \<open>metadata\<close> argument of \<open>log\<close> as far as
  \<open>log\<close> looks at it: whether it has own enumerable keys and, if so, whether
  \<open>JSON.stringify\<close> throws on it.
\<close>

datatype level = ERR | WRN

datatype metadata = NoKeys | Serializable | NotSerializable string

text \<open>
  \<open>log(level, message, metadata)\<close>: a filtered ERR message returns at once; otherwise
  the metadata is serialised, which may throw, and the line is printed. The entry keeps
  the level and the message of the line; the JSON text of the metadata, which follows
  the message on the same line, and the timestamp before it are not kept. The result is
  the exception that leaves the call, if any, and the entries.
\<close>

definition RustStyleLogger_log ::
  "level \<Rightarrow> string \<Rightarrow> metadata \<Rightarrow> log_entry list \<Rightarrow> thrown option \<times> log_entry list" where
  "RustStyleLogger_log lvl message md entries =
     (if lvl = ERR \<and> shouldFilter message then (None, entries)
      else
        (case md of
           NotSerializable m \<Rightarrow> (Some (ErrorObject m), entries)
         | NoKeys \<Rightarrow>
             (None, entries @ [case lvl of ERR \<Rightarrow> LogError message | WRN \<Rightarrow> LogWarn message])
         | Serializable \<Rightarrow>
             (None, entries @ [case lvl of ERR \<Rightarrow> LogError message | WRN \<Rightarrow> LogWarn message])))"

text \<open>\<open>warn(message)\<close>, with the default \<open>metadata = {}\<close>.\<close>

definition RustStyleLogger_warn ::
  "string \<Rightarrow> log_entry list \<Rightarrow> thrown option \<times> log_entry list" where
  "RustStyleLogger_warn message entries = RustStyleLogger_log WRN message NoKeys entries"

text \<open>
  \<open>error(message, error)\<close>. The second argument is \<open>None\<close> when the call has one
  argument (the default \<open>{}\<close>). For an \<open>Error\<close> the message grows by \<open>: \<close> and the
  error's message and the metadata is \<open>{stack}\<close>; another object (or \<open>null\<close>) becomes
  the metadata; any other truthy value is appended by a template literal, which throws
  a TypeError for a symbol.
\<close>

definition RustStyleLogger_error ::
  "string \<Rightarrow> thrown option \<Rightarrow> log_entry list \<Rightarrow> thrown option \<times> log_entry list" where
  "RustStyleLogger_error message error entries =
     (case error of
        None \<Rightarrow> RustStyleLogger_log ERR message NoKeys entries
      | Some (ErrorObject m) \<Rightarrow> RustStyleLogger_log ERR (message @ '': '' @ m) Serializable entries
      | Some KeyedObject \<Rightarrow> RustStyleLogger_log ERR message Serializable entries
      | Some (Unserializable m) \<Rightarrow> RustStyleLogger_log ERR message (NotSerializable m) entries
      | Some Bare \<Rightarrow> RustStyleLogger_log ERR message NoKeys entries
      | Some (Truthy t) \<Rightarrow> RustStyleLogger_log ERR (message @ '': '' @ t) NoKeys entries
      | Some SymbolValue \<Rightarrow>
          (Some (ErrorObject ''Cannot convert a Symbol value to a string''), entries))"

section \<open>Module manifests and registry records (server/handlers/modules.js)\<close>

text \<open>
  A dependency declaration \<open>{name, optional}\<close> and the manifest \<open>HeliactylModule\<close>.
  A manifest field that is \<open>undefined\<close> is \<open>None\<close>; \<open>api_level\<close> is an integer and
  the other required fields are strings, as every manifest of the repository has them.
\<close>

record dependency =
  name :: string
  optional :: bool

record manifest =
  manifest_name :: "string option"
  version :: "string option"
  api_level :: "int option"
  target_platform :: "string option"
  dependencies :: "dependency list option"

text \<open>
  What a module file exports. \<open>load\<close> is missing, or a value that is not a function,
  or an async function of the host (\<open>app\<close>, \<open>db\<close>): called on the host state \<open>'h\<close> it
  settles with the value it threw or rejected with, or without one, and leaves a host
  state.
\<close>

datatype 'h load_export =
  NoLoad
| NotFunction
| LoadFunction "'h \<Rightarrow> thrown option \<times> 'h"

record 'h module_exports =
  HeliactylModule :: "manifest option"
  load :: "'h load_export"

record 'h module_record =
  module_id :: string
  path :: string
  exports :: "'h module_exports"
  manifest :: manifest

section \<open>sortModulesByDependency\<close>

text \<open>
  The three locals of \<open>sortModulesByDependency\<close> (\<open>visited\<close>, \<open>visiting\<close>, \<open>sorted\<close>;
  the array is \<open>sorted_ids\<close> here) and what the closure \<open>visit\<close> sends to the logger.
\<close>

record sort_state =
  visited :: "string set"
  visiting :: "string set"
  sorted_ids :: "string list"
  logged :: "log_entry list"

text \<open>
  \<open>this.logger.error(msg)\<close> and \<open>this.logger.warn(msg)\<close> with one argument: such a call
  does not throw, so only the entries are kept.
\<close>

definition logger_error :: "string \<Rightarrow> sort_state \<Rightarrow> sort_state" where
  "logger_error msg s = s\<lparr>logged := snd (RustStyleLogger_error msg None (logged s))\<rparr>"

definition logger_warn :: "string \<Rightarrow> sort_state \<Rightarrow> sort_state" where
  "logger_warn msg s = s\<lparr>logged := snd (RustStyleLogger_warn msg (logged s))\<rparr>"

text \<open>
  \<open>visit\<close> is the closure of the source; \<open>visit_deps\<close> is its \<open>for (const dep of
  module.manifest.dependencies)\<close> loop, the rest of the array still to go as argument.
\<close>

function visit :: "'h module_record js_map \<Rightarrow> string \<Rightarrow> sort_state \<Rightarrow> sort_state"
  and visit_deps ::
    "'h module_record js_map \<Rightarrow> string \<Rightarrow> dependency list \<Rightarrow> sort_state \<Rightarrow> sort_state"
where
  "visit moduleMap moduleId s =
     (if moduleId \<in> visited s then s
      else if moduleId \<in> visiting s then
        logger_error (''Circular dependency detected involving module '' @ moduleId) s
      else
        let s1 = s\<lparr>visiting := insert moduleId (visiting s)\<rparr>;
            s2 = (case map_get moduleMap moduleId of
                    None \<Rightarrow> s1
                  | Some module \<Rightarrow>
                      (case dependencies (manifest module) of
                         None \<Rightarrow> s1
                       | Some deps \<Rightarrow> visit_deps moduleMap moduleId deps s1))
        in s2\<lparr>visiting := visiting s2 - {moduleId},
               visited := insert moduleId (visited s2),
               sorted_ids := sorted_ids s2 @ [moduleId]\<rparr>)"
| "visit_deps moduleMap moduleId [] s = s"
| "visit_deps moduleMap moduleId (dep # deps) s =
     (if \<not> map_has moduleMap (name dep) then
        visit_deps moduleMap moduleId deps
          (if optional dep then
             logger_warn (''Optional dependency '' @ name dep @ '' for module ''
                           @ moduleId @ '' not found'') s
           else
             logger_error (''Required dependency '' @ name dep @ '' for module ''
                            @ moduleId @ '' not found'') s)
      else visit_deps moduleMap moduleId deps (visit moduleMap (name dep) s))"
  by pat_completeness auto

text \<open>
  Termination. A call that does real work puts a registered identifier into
  \<open>visiting\<close> that was in neither set, so the number of registry keys in neither set
  goes down; the loop goes on with the state that the inner call \<open>visit moduleMap
  (name dep) s\<close> returns, and a call, where it returns, only ever marks more
  identifiers.
\<close>

definition unmarked :: "'h module_record js_map \<Rightarrow> sort_state \<Rightarrow> nat" where
  "unmarked m s = card (set (map_keys m) - (visiting s \<union> visited s))"

termination visit
proof -
  have marks:
    "visit_visit_deps_dom (Inl (m, i, s)) \<Longrightarrow>
       visiting s \<union> visited s \<subseteq> visiting (visit m i s) \<union> visited (visit m i s)"
    "visit_visit_deps_dom (Inr (m, i, ds, s)) \<Longrightarrow>
       visiting s \<union> visited s
         \<subseteq> visiting (visit_deps m i ds s) \<union> visited (visit_deps m i ds s)"
    for m :: "'a module_record js_map" and i ds s
  proof (induction m i s and m i ds s rule: visit_visit_deps.pinduct)
    case (1 m moduleId s)
    show ?case
    proof (cases "moduleId \<in> visited s \<or> moduleId \<in> visiting s")
      case True
      then show ?thesis using 1(1) by (auto simp: visit.psimps logger_error_def)
    next
      case False
      show ?thesis
      proof (cases "map_get m moduleId")
        case None
        then show ?thesis using False 1(1) by (auto simp: visit.psimps)
      next
        case (Some module)
        note got = this
        show ?thesis
        proof (cases "dependencies (manifest module)")
          case None
          then show ?thesis using False got 1(1) by (auto simp: visit.psimps)
        next
          case (Some deps)
          let ?s1 = "s\<lparr>visiting := insert moduleId (visiting s)\<rparr>"
          have "visiting ?s1 \<union> visited ?s1
              \<subseteq> visiting (visit_deps m moduleId deps ?s1)
                \<union> visited (visit_deps m moduleId deps ?s1)"
            using False got Some by (intro 1(2)) auto
          then show ?thesis
            using False got Some 1(1) by (auto simp: visit.psimps Let_def)
        qed
      qed
    qed
  next
    case (2 m moduleId s)
    then show ?case by (simp add: visit_deps.psimps)
  next
    case (3 m moduleId dep deps s)
    then show ?case
      by (auto simp: visit_deps.psimps logger_error_def logger_warn_def split: if_splits)
  qed
  show ?thesis
  proof (relation "measures
      [\<lambda>x. case x of Inl (m, i, s) \<Rightarrow> unmarked m s | Inr (m, i, ds, s) \<Rightarrow> unmarked m s,
       \<lambda>x. case x of Inl (m, i, s) \<Rightarrow> 0 | Inr (m, i, ds, s) \<Rightarrow> Suc (length ds)]",
      goal_cases)
    case 1
    then show ?case by simp
  next
    case (2 m moduleId s x x2 x2a)
    have "moduleId \<in> set (map_keys m)"
      using 2 by (auto simp: map_get_def map_keys_def dest: map_of_SomeD intro: rev_image_eqI)
    with 2 have "set (map_keys m) - (visiting x \<union> visited x)
        \<subset> set (map_keys m) - (visiting s \<union> visited s)"
      by auto
    then have "unmarked m x < unmarked m s"
      unfolding unmarked_def by (intro psubset_card_mono) auto
    then show ?case by simp
  next
    case (3 m moduleId dep deps s)
    then show ?case by (auto simp: unmarked_def logger_error_def logger_warn_def)
  next
    case (4 m moduleId dep deps s)
    then show ?case by simp
  next
    case (5 m moduleId dep deps s)
    have "set (map_keys m)
          - (visiting (visit m (name dep) s) \<union> visited (visit m (name dep) s))
        \<subseteq> set (map_keys m) - (visiting s \<union> visited s)"
      using marks(1)[OF 5(2)] by auto
    then have "unmarked m (visit m (name dep) s) \<le> unmarked m s"
      unfolding unmarked_def by (intro card_mono) auto
    then show ?case by auto
  qed
qed

declare visit.simps [simp del]

text \<open>
  The body of \<open>sortModulesByDependency\<close>: \<open>visit\<close> on every key, in the order of
  \<open>moduleMap.keys()\<close>, from empty sets and an empty array. \<open>sortModulesByDependency\<close>
  returns the array; \<open>sortModulesByDependency_log\<close> is what the call logged.
\<close>

definition sort_init :: sort_state where
  "sort_init = \<lparr>visited = {}, visiting = {}, sorted_ids = [], logged = []\<rparr>"

fun visit_keys :: "'h module_record js_map \<Rightarrow> string list \<Rightarrow> sort_state \<Rightarrow> sort_state" where
  "visit_keys moduleMap [] s = s"
| "visit_keys moduleMap (moduleId # ks) s = visit_keys moduleMap ks (visit moduleMap moduleId s)"

definition sort_run :: "'h module_record js_map \<Rightarrow> sort_state" where
  "sort_run moduleMap = visit_keys moduleMap (map_keys moduleMap) sort_init"

definition sortModulesByDependency :: "'h module_record js_map \<Rightarrow> string list" where
  "sortModulesByDependency moduleMap = sorted_ids (sort_run moduleMap)"

definition sortModulesByDependency_log :: "'h module_record js_map \<Rightarrow> log_entry list" where
  "sortModulesByDependency_log moduleMap = logged (sort_run moduleMap)"

section \<open>The module loader\<close>

text \<open>
  The fields of \<open>ModuleLoader\<close> that the methods read or write. \<open>host\<close> stands for
  \<open>app\<close> and \<open>db\<close>, which the loader only hands to every \<open>load\<close>; \<open>logger\<close> is what
  the loader has logged so far.
\<close>

record 'h ModuleLoader =
  host :: 'h
  platformVersion :: string
  apiLevel :: int
  logger :: "log_entry list"
  loadedModules :: "'h module_record js_map"
  moduleRegistry :: "'h module_record js_map"

definition ModuleLoader_new :: "'h \<Rightarrow> string \<Rightarrow> int \<Rightarrow> 'h ModuleLoader" where
  "ModuleLoader_new app_db platformVersion' apiLevel' =
     \<lparr>host = app_db, platformVersion = platformVersion', apiLevel = apiLevel',
      logger = [], loadedModules = [], moduleRegistry = []\<rparr>"

text \<open>
  What the loader calls outside the repository: Node's \<open>require\<close> of a module file
  (it throws a value, or gives the file's exports) and \<open>semver.satisfies(version,
  range)\<close>.
\<close>

record 'h node_env =
  require_module :: "string \<Rightarrow> thrown + 'h module_exports"
  semver_satisfies :: "string \<Rightarrow> string \<Rightarrow> bool"

text \<open>
  \<open>this.logger.error(msg)\<close> with one argument, which does not throw, and
  \<open>this.logger.error(msg, error)\<close> in a \<open>catch\<close>, which may: its result is the exception
  that leaves the call, if any, and the loader.
\<close>

definition log_error :: "string \<Rightarrow> 'h ModuleLoader \<Rightarrow> 'h ModuleLoader" where
  "log_error msg L = L\<lparr>logger := snd (RustStyleLogger_error msg None (logger L))\<rparr>"

definition log_caught ::
  "string \<Rightarrow> thrown \<Rightarrow> 'h ModuleLoader \<Rightarrow> thrown option \<times> 'h ModuleLoader" where
  "log_caught msg error L =
     (case RustStyleLogger_error msg (Some error) (logger L) of
        (exn, entries) \<Rightarrow> (exn, L\<lparr>logger := entries\<rparr>))"

text \<open>Decimal digits of an integer, as a template literal prints it.\<close>

fun show_nat :: "nat \<Rightarrow> string" where
  "show_nat n =
     (if n < 10 then [char_of (48 + n)]
      else show_nat (n div 10) @ [char_of (48 + n mod 10)])"

declare show_nat.simps [simp del]

definition show_int :: "int \<Rightarrow> string" where
  "show_int i = (if i < 0 then ''-'' @ show_nat (nat (- i)) else show_nat (nat i))"

subsection \<open>validateManifest\<close>

text \<open>
  \<open>!manifest[field]\<close>: a field is falsy when it is \<open>undefined\<close>, the empty string or
  the number \<open>0\<close>.
\<close>

definition truthy_string :: "string option \<Rightarrow> bool" where
  "truthy_string v = (case v of None \<Rightarrow> False | Some s \<Rightarrow> s \<noteq> [])"

definition truthy_int :: "int option \<Rightarrow> bool" where
  "truthy_int v = (case v of None \<Rightarrow> False | Some n \<Rightarrow> n \<noteq> 0)"

definition requiredFields :: "string list" where
  "requiredFields = [''name'', ''version'', ''api_level'', ''target_platform'']"

definition field_truthy :: "manifest \<Rightarrow> string \<Rightarrow> bool" where
  "field_truthy mf field =
     (if field = ''name'' then truthy_string (manifest_name mf)
      else if field = ''version'' then truthy_string (version mf)
      else if field = ''api_level'' then truthy_int (api_level mf)
      else if field = ''target_platform'' then truthy_string (target_platform mf)
      else False)"

text \<open>The loop over \<open>requiredFields\<close>: the first field that is falsy, if there is one.\<close>

fun first_missing :: "manifest \<Rightarrow> string list \<Rightarrow> string option" where
  "first_missing mf [] = None"
| "first_missing mf (field # rest) =
     (if \<not> field_truthy mf field then Some field else first_missing mf rest)"

text \<open>
  The result is the boolean and the loader with what was logged. After the loop
  \<open>api_level\<close> and \<open>target_platform\<close> are present; the \<open>None\<close> branches below are what
  JavaScript does with \<open>undefined\<close> there (\<open>undefined > n\<close> is false, and no version
  satisfies a range that is not a string), and are never reached.
\<close>

definition validateManifest ::
  "(string \<Rightarrow> string \<Rightarrow> bool) \<Rightarrow> 'h ModuleLoader \<Rightarrow> manifest option \<Rightarrow> string
     \<Rightarrow> bool \<times> 'h ModuleLoader" where
  "validateManifest satisfies L mfo moduleId =
     (case mfo of
        None \<Rightarrow> (False, log_error (''Module '' @ moduleId @ '' is missing a manifest'') L)
      | Some mf \<Rightarrow>
          (case first_missing mf requiredFields of
             Some field \<Rightarrow>
               (False, log_error (''Module '' @ moduleId
                          @ '' is missing required manifest field: '' @ field) L)
           | None \<Rightarrow>
               if (case api_level mf of None \<Rightarrow> False | Some n \<Rightarrow> n > apiLevel L) then
                 (False, log_error (''Module '' @ moduleId @ '' requires API level ''
                            @ (case api_level mf of None \<Rightarrow> ''undefined'' | Some n \<Rightarrow> show_int n)
                            @ '', but platform only supports '' @ show_int (apiLevel L)) L)
               else if \<not> (case target_platform mf of
                             None \<Rightarrow> False
                           | Some r \<Rightarrow> satisfies (platformVersion L) r) then
                 (False, log_error (''Module '' @ moduleId @ '' targets platform ''
                            @ (case target_platform mf of None \<Rightarrow> ''undefined'' | Some r \<Rightarrow> r)
                            @ '', but current platform is '' @ platformVersion L) L)
               else (True, L)))"

subsection \<open>loadModule\<close>

text \<open>
  An async method returns a value or rejects with one: \<open>Inr\<close> the value, \<open>Inl\<close> what it
  rejects with. \<open>require\<close> throwing is the \<open>catch\<close> branch, and the \<open>logger.error\<close> in
  that branch stands outside any \<open>try\<close>: when it throws, \<open>loadModule\<close> rejects. A file
  whose \<open>load\<close> is missing or not a function is passed over without a log entry (the
  source's log line is commented out).
\<close>

definition loadModule ::
  "'h node_env \<Rightarrow> 'h ModuleLoader \<Rightarrow> string \<Rightarrow> string
     \<Rightarrow> (thrown + bool) \<times> 'h ModuleLoader" where
  "loadModule env L moduleId modulePath =
     (case require_module env modulePath of
        Inl error \<Rightarrow>
          (case log_caught (''Error loading module '' @ moduleId @ '':'') error L of
             (None, L') \<Rightarrow> (Inr False, L')
           | (Some exn, L') \<Rightarrow> (Inl exn, L'))
      | Inr moduleExports \<Rightarrow>
          (case HeliactylModule moduleExports of
             None \<Rightarrow>
               (Inr False, log_error (''Module '' @ moduleId
                              @ '' is missing HeliactylModule manifest'') L)
           | Some mf \<Rightarrow>
               (case validateManifest (semver_satisfies env) L (Some mf) moduleId of
                  (valid, L') \<Rightarrow>
                    if \<not> valid then (Inr False, L')
                    else
                      (case load moduleExports of
                         NoLoad \<Rightarrow> (Inr False, L')
                       | NotFunction \<Rightarrow> (Inr False, L')
                       | LoadFunction f \<Rightarrow>
                           (Inr True, L'\<lparr>moduleRegistry :=
                                           map_set (moduleRegistry L') moduleId
                                             \<lparr>module_id = moduleId, path = modulePath,
                                              exports = moduleExports, manifest = mf\<rparr>\<rparr>)))))"

subsection \<open>initializeModule\<close>

text \<open>
  \<open>await module.exports.load(this.app, this.db)\<close>: calling a value that is not a
  function throws a TypeError inside the \<open>try\<close>. What the \<open>try\<close> catches goes to
  \<open>logger.error\<close> in the \<open>catch\<close>; when that call throws, \<open>initializeModule\<close> rejects.
\<close>

definition call_load :: "'h load_export \<Rightarrow> 'h \<Rightarrow> thrown option \<times> 'h" where
  "call_load l h =
     (case l of
        LoadFunction f \<Rightarrow> f h
      | NoLoad \<Rightarrow> (Some (ErrorObject ''module.exports.load is not a function''), h)
      | NotFunction \<Rightarrow> (Some (ErrorObject ''module.exports.load is not a function''), h))"

definition initializeModule ::
  "'h ModuleLoader \<Rightarrow> string \<Rightarrow> (thrown + bool) \<times> 'h ModuleLoader" where
  "initializeModule L moduleId =
     (case map_get (moduleRegistry L) moduleId of
        None \<Rightarrow> (Inr False, L)
      | Some module \<Rightarrow>
          (case call_load (load (exports module)) (host L) of
             (None, h) \<Rightarrow>
               (Inr True, L\<lparr>host := h,
                            loadedModules := map_set (loadedModules L) moduleId module\<rparr>)
           | (Some error, h) \<Rightarrow>
               (case log_caught (''Error initializing module '' @ moduleId @ '':'') error
                       (L\<lparr>host := h\<rparr>) of
                  (None, L') \<Rightarrow> (Inr False, L')
                | (Some exn, L') \<Rightarrow> (Inl exn, L'))))"

subsection \<open>loadAllModules\<close>

text \<open>
  \<open>discoverModules\<close> walks the file system; its result, the list of \<open>{id, path}\<close>, is
  the argument \<open>discovered\<close>. The two \<open>for\<close> loops are \<open>loadModules\<close> and
  \<open>initializeModules\<close>: each drops the boolean of a call that returns, as the source
  does, and stops with the exception of a call that rejects (\<open>await\<close> throws it and no
  \<open>try\<close> is around the loop). \<open>loadAllModules\<close> then rejects with it.
\<close>

record candidate =
  candidate_id :: string
  candidate_path :: string

fun loadModules ::
  "'h node_env \<Rightarrow> 'h ModuleLoader \<Rightarrow> candidate list \<Rightarrow> thrown option \<times> 'h ModuleLoader" where
  "loadModules env L [] = (None, L)"
| "loadModules env L (c # cs) =
     (case loadModule env L (candidate_id c) (candidate_path c) of
        (Inl exn, L') \<Rightarrow> (Some exn, L')
      | (Inr loaded, L') \<Rightarrow> loadModules env L' cs)"

fun initializeModules ::
  "'h ModuleLoader \<Rightarrow> string list \<Rightarrow> thrown option \<times> 'h ModuleLoader" where
  "initializeModules L [] = (None, L)"
| "initializeModules L (moduleId # ids) =
     (case initializeModule L moduleId of
        (Inl exn, L') \<Rightarrow> (Some exn, L')
      | (Inr initialized, L') \<Rightarrow> initializeModules L' ids)"

definition loadAllModules ::
  "'h node_env \<Rightarrow> 'h ModuleLoader \<Rightarrow> candidate list
     \<Rightarrow> (thrown + 'h module_record js_map) \<times> 'h ModuleLoader" where
  "loadAllModules env L discovered =
     (case loadModules env L discovered of
        (Some exn, L1) \<Rightarrow> (Inl exn, L1)
      | (None, L1) \<Rightarrow>
          (let sortedModuleIds = sortModulesByDependency (moduleRegistry L1);
               L2 = L1\<lparr>logger := logger L1
                       @ sortModulesByDependency_log (moduleRegistry L1)\<rparr>
           in case initializeModules L2 sortedModuleIds of
                (Some exn, L3) \<Rightarrow> (Inl exn, L3)
              | (None, L3) \<Rightarrow> (Inr (loadedModules L3), L3)))"

section \<open>The live configuration store (handlers/config.js)\<close>

subsection \<open>Parsed documents and JavaScript objects\<close>

text \<open>
  What \<open>toml.parse\<close> returns is a fresh tree of tables, arrays and scalars that
  nothing else refers to (the specification's nested table, array and scalar tree): the
  datatype \<open>toml\<close>. A table lists its keys in order. Floats and dates are left out.
\<close>

datatype toml =
  TBoolean bool
| TInteger int
| TString string
| TArray "toml list"
| TTable "(string \<times> toml) list"

text \<open>
  The objects that the program holds references to live in a heap: an object is the
  list of its own properties, its address is its index, and \<open>JObject a\<close> is a
  reference. Arrays are only ever replaced whole, so they are values here.
  \<open>JFunction\<close> is a method found on \<open>Object.prototype\<close>.
\<close>

datatype jsval =
  JUndefined
| JNull
| JBoolean bool
| JNumber int
| JString string
| JArray "jsval list"
| JObject nat
| JFunction

type_synonym js_object = "(string \<times> jsval) list"

type_synonym js_heap = "js_object list"

text \<open>An address the heap does not hold cannot arise; it reads as an empty object.\<close>

definition heap_get :: "js_heap \<Rightarrow> nat \<Rightarrow> js_object" where
  "heap_get h a = (if a < length h then h ! a else [])"

definition heap_put :: "js_heap \<Rightarrow> nat \<Rightarrow> js_object \<Rightarrow> js_heap" where
  "heap_put h a obj = (if a < length h then h[a := obj] else h)"

text \<open>
  The objects of a parsed tree, put into the heap: every table becomes a new object
  at a fresh address, after the objects of its fields.
\<close>

fun alloc_value :: "js_heap \<Rightarrow> toml \<Rightarrow> jsval \<times> js_heap"
  and alloc_table :: "js_heap \<Rightarrow> (string \<times> toml) list \<Rightarrow> js_object \<times> js_heap"
  and alloc_items :: "js_heap \<Rightarrow> toml list \<Rightarrow> jsval list \<times> js_heap"
where
  "alloc_value h (TBoolean b) = (JBoolean b, h)"
| "alloc_value h (TInteger n) = (JNumber n, h)"
| "alloc_value h (TString s) = (JString s, h)"
| "alloc_value h (TArray items) =
     (case alloc_items h items of (vs, h') \<Rightarrow> (JArray vs, h'))"
| "alloc_value h (TTable table) =
     (case alloc_table h table of (obj, h') \<Rightarrow> (JObject (length h'), h' @ [obj]))"
| "alloc_table h [] = ([], h)"
| "alloc_table h ((key, v) # table) =
     (case alloc_value h v of
        (jv, h1) \<Rightarrow> (case alloc_table h1 table of (obj, h2) \<Rightarrow> ((key, jv) # obj, h2)))"
| "alloc_items h [] = ([], h)"
| "alloc_items h (v # items) =
     (case alloc_value h v of
        (jv, h1) \<Rightarrow> (case alloc_items h1 items of (vs, h2) \<Rightarrow> (jv # vs, h2)))"

text \<open>
  An ordinary object inherits from \<open>Object.prototype\<close>, and both \<open>key in obj\<close> and
  \<open>obj[key]\<close> look there when the object has no own property of that name. These are
  the method names of \<open>Object.prototype\<close>; its accessor \<open>__proto__\<close> is left out, and
  a table key of that name is outside this model.
\<close>

definition Object_prototype_keys :: "string list" where
  "Object_prototype_keys =
     [''constructor'', ''__defineGetter__'', ''__defineSetter__'', ''hasOwnProperty'',
      ''__lookupGetter__'', ''__lookupSetter__'', ''isPrototypeOf'',
      ''propertyIsEnumerable'', ''toString'', ''valueOf'', ''toLocaleString'']"

definition js_in :: "string \<Rightarrow> (string \<times> 'a) list \<Rightarrow> bool" where
  "js_in key obj = (key \<in> set (map fst obj) \<or> key \<in> set Object_prototype_keys)"

definition js_get :: "js_object \<Rightarrow> string \<Rightarrow> jsval" where
  "js_get obj key =
     (case map_of obj key of
        Some v \<Rightarrow> v
      | None \<Rightarrow> if key \<in> set Object_prototype_keys then JFunction else JUndefined)"

text \<open>\<open>obj[key] = v\<close>: an own property keeps its place, a new one goes last.\<close>

fun js_set :: "js_object \<Rightarrow> string \<Rightarrow> jsval \<Rightarrow> js_object" where
  "js_set [] key v = [(key, v)]"
| "js_set ((k, w) # obj) key v =
     (if k = key then (key, v) # obj else (k, w) # js_set obj key v)"

subsection \<open>updateObjectInPlace\<close>

text \<open>
  \<open>target\<close> is the address of the live object, \<open>source\<close> the freshly parsed table.
  The first \<open>forEach\<close> deletes the own keys of \<open>target\<close> for which \<open>key in source\<close> is
  false; \<open>update_keys\<close> is the second \<open>forEach\<close>, over the keys of \<open>source\<close> still to
  go. The test of the \<open>if\<close> holds exactly when the new value is a table and
  \<open>target[key]\<close> is an object that is not an array.
\<close>

fun updateObjectInPlace :: "js_heap \<Rightarrow> nat \<Rightarrow> (string \<times> toml) list \<Rightarrow> js_heap"
  and update_keys :: "js_heap \<Rightarrow> nat \<Rightarrow> (string \<times> toml) list \<Rightarrow> js_heap"
where
  "updateObjectInPlace h target source =
     update_keys
       (heap_put h target (filter (\<lambda>(key, _). js_in key source) (heap_get h target)))
       target source"
| "update_keys h target [] = h"
| "update_keys h target ((key, TTable table) # rest) =
     (case js_get (heap_get h target) key of
        JObject a \<Rightarrow> update_keys (updateObjectInPlace h a table) target rest
      | _ \<Rightarrow>
          (case alloc_value h (TTable table) of
             (v, h') \<Rightarrow>
               update_keys (heap_put h' target (js_set (heap_get h' target) key v))
                 target rest))"
| "update_keys h target ((key, new_value) # rest) =
     (case alloc_value h new_value of
        (v, h') \<Rightarrow>
          update_keys (heap_put h' target (js_set (heap_get h' target) key v)) target rest)"

subsection \<open>loadConfig and the change handler\<close>

text \<open>
  \<open>configStore\<close> is the module's global \<open>Map\<close> from absolute path to \<open>{data,
  watcher}\<close>; \<open>data\<close> is the address of the live object. \<open>watchers\<close> are the chokidar
  watchers that exist: each with the path it watches and the object its change handler
  closes over; a watcher is known by its index. \<open>console\<close> is what went to
  \<open>console.error\<close>.
\<close>

record config_entry =
  data :: nat
  watcher :: nat

record config_state =
  configStore :: "config_entry js_map"
  heap :: js_heap
  watchers :: "(string \<times> nat) list"
  console :: "log_entry list"

text \<open>
  The file system as a call sees it, and the library functions: \<open>path.resolve\<close>,
  \<open>path.basename\<close> and \<open>toml.parse\<close>, which throws or returns the root table.
\<close>

datatype fs_entry = Missing | Unreadable js_error | File string

record config_env =
  resolve :: "string \<Rightarrow> string"
  basename :: "string \<Rightarrow> string"
  toml_parse :: "string \<Rightarrow> js_error + (string \<times> toml) list"

definition existsSync :: "(string \<Rightarrow> fs_entry) \<Rightarrow> string \<Rightarrow> bool" where
  "existsSync fs p = (fs p \<noteq> Missing)"

definition readFileSync :: "(string \<Rightarrow> fs_entry) \<Rightarrow> string \<Rightarrow> js_error + string" where
  "readFileSync fs p =
     (case fs p of
        Missing \<Rightarrow> Inl (''ENOENT: no such file or directory, open '' @ p)
      | Unreadable err \<Rightarrow> Inl err
      | File content \<Rightarrow> Inr content)"

definition console_error :: "string \<Rightarrow> config_state \<Rightarrow> config_state" where
  "console_error msg st = st\<lparr>console := console st @ [LogError msg]\<rparr>"

definition initial_load_failed :: "string \<Rightarrow> js_error \<Rightarrow> string" where
  "initial_load_failed fullPath err =
     ''[CONFIG] Initial load failed for '' @ fullPath @ '': '' @ err"

definition hot_reload_failed :: "config_env \<Rightarrow> string \<Rightarrow> js_error \<Rightarrow> string" where
  "hot_reload_failed env fullPath err =
     [CHR 0x1B] @ ''[31m[CONFIG] Hot-reload failed for '' @ basename env fullPath
       @ '': '' @ err @ [CHR 0x1B] @ ''[0m''"

text \<open>
  The handler of \<open>watcher.on('change', ...)\<close> for the watcher on \<open>fullPath\<close> whose
  live object is \<open>configData\<close>. The first component of the result is the exception that
  leaves the handler, if any.
\<close>

definition on_change ::
  "config_env \<Rightarrow> (string \<Rightarrow> fs_entry) \<Rightarrow> string \<Rightarrow> nat \<Rightarrow> config_state
     \<Rightarrow> js_error option \<times> config_state" where
  "on_change env fs fullPath configData st =
     (case readFileSync fs fullPath of
        Inl err \<Rightarrow> (None, console_error (hot_reload_failed env fullPath err) st)
      | Inr updatedTomlString \<Rightarrow>
          (case toml_parse env updatedTomlString of
             Inl err \<Rightarrow> (None, console_error (hot_reload_failed env fullPath err) st)
           | Inr updatedConfig \<Rightarrow>
               (None, st\<lparr>heap := updateObjectInPlace (heap st) configData updatedConfig\<rparr>)))"

text \<open>
  \<open>loadConfig\<close> returns the live object or throws. On the first load of a path it
  parses the file, creates the watcher and stores both.
\<close>

definition loadConfig ::
  "config_env \<Rightarrow> (string \<Rightarrow> fs_entry) \<Rightarrow> config_state \<Rightarrow> string
     \<Rightarrow> (js_error + nat) \<times> config_state" where
  "loadConfig env fs st filePath =
     (let fullPath = resolve env filePath in
      case map_get (configStore st) fullPath of
        Some entry \<Rightarrow> (Inr (data entry), st)
      | None \<Rightarrow>
          if \<not> existsSync fs fullPath then
            (Inl (''Config file not found: '' @ fullPath),
             console_error
               (initial_load_failed fullPath (''Config file not found: '' @ fullPath)) st)
          else
            (case readFileSync fs fullPath of
               Inl err \<Rightarrow> (Inl err, console_error (initial_load_failed fullPath err) st)
             | Inr tomlString \<Rightarrow>
                 (case toml_parse env tomlString of
                    Inl err \<Rightarrow> (Inl err, console_error (initial_load_failed fullPath err) st)
                  | Inr parsed \<Rightarrow>
                      (case alloc_table (heap st) parsed of
                         (obj, h) \<Rightarrow>
                           (Inr (length h),
                            st\<lparr>heap := h @ [obj],
                               watchers := watchers st @ [(fullPath, length h)],
                               configStore :=
                                 map_set (configStore st) fullPath
                                   \<lparr>data = length h,
                                    watcher = length (watchers st)\<rparr>\<rparr>)))))"

text \<open>
  What happens to the store over time: calls of \<open>loadConfig\<close>, and change events of
  the file watcher, each with the file system of its moment. A change event on a path
  runs the handler of every watcher on that path.
\<close>

datatype config_event =
  Load "string \<Rightarrow> fs_entry" string
| Changed "string \<Rightarrow> fs_entry" string

fun fire ::
  "config_env \<Rightarrow> (string \<Rightarrow> fs_entry) \<Rightarrow> string \<Rightarrow> (string \<times> nat) list \<Rightarrow> config_state
     \<Rightarrow> config_state" where
  "fire env fs p [] st = st"
| "fire env fs p ((fullPath, configData) # ws) st =
     fire env fs p ws
       (if fullPath = p then snd (on_change env fs fullPath configData st) else st)"

fun config_step :: "config_env \<Rightarrow> config_state \<Rightarrow> config_event \<Rightarrow> config_state" where
  "config_step env st (Load fs filePath) = snd (loadConfig env fs st filePath)"
| "config_step env st (Changed fs p) = fire env fs p (watchers st) st"

fun config_run :: "config_env \<Rightarrow> config_state \<Rightarrow> config_event list \<Rightarrow> config_state" where
  "config_run env st [] = st"
| "config_run env st (ev # evs) = config_run env (config_step env st ev) evs"

section \<open>Vocabulary of the properties\<close>

text \<open>
  The dependency declarations that \<open>visit\<close> iterates for a module: those of its
  manifest, and none when the identifier is not registered or the manifest has no
  \<open>dependencies\<close>.
\<close>

definition declared_deps :: "'h module_record js_map \<Rightarrow> string \<Rightarrow> dependency list" where
  "declared_deps m i =
     (case map_get m i of
        None \<Rightarrow> []
      | Some module \<Rightarrow> (case dependencies (manifest module) of None \<Rightarrow> [] | Some deps \<Rightarrow> deps))"

text \<open>The two halves of the body of \<open>visit\<close> around its loop.\<close>

definition enter :: "string \<Rightarrow> sort_state \<Rightarrow> sort_state" where
  "enter i s = s\<lparr>visiting := insert i (visiting s)\<rparr>"

definition leave :: "string \<Rightarrow> sort_state \<Rightarrow> sort_state" where
  "leave i s = s\<lparr>visiting := visiting s - {i}, visited := insert i (visited s),
                 sorted_ids := sorted_ids s @ [i]\<rparr>"

text \<open>
  What \<open>visit\<close> adds to the log for a dependency of module \<open>i\<close> that is not
  registered: a warning when it is optional; an error when it is required, unless the
  logger filters the message.
\<close>

definition report_missing :: "string \<Rightarrow> dependency \<Rightarrow> log_entry list" where
  "report_missing i d =
     (if optional d then
        [LogWarn (''Optional dependency '' @ name d @ '' for module '' @ i @ '' not found'')]
      else if shouldFilter
                (''Required dependency '' @ name d @ '' for module '' @ i @ '' not found'')
      then []
      else
        [LogError (''Required dependency '' @ name d @ '' for module '' @ i @ '' not found'')])"

text \<open>
  \<open>depends_on m a b\<close>: module \<open>a\<close> declares a dependency named \<open>b\<close>, and \<open>b\<close> is
  registered. \<open>dep_rel\<close> is this relation as a set of edges, so that
  \<open>(a, b) \<in> (dep_rel m)\<^sup>*\<close> says that \<open>a\<close> is \<open>b\<close> or depends on it through any number of
  registered modules.
\<close>

definition depends_on :: "'h module_record js_map \<Rightarrow> string \<Rightarrow> string \<Rightarrow> bool" where
  "depends_on m a b = (b \<in> name ` set (declared_deps m a) \<and> map_has m b)"

definition dep_rel :: "'h module_record js_map \<Rightarrow> (string \<times> string) set" where
  "dep_rel m = {(a, b). depends_on m a b}"

text \<open>
  The position of the first occurrence of \<open>x\<close> in a list, counted from 0; it is the
  length of the list when \<open>x\<close> does not occur.
\<close>

definition position :: "'a list \<Rightarrow> 'a \<Rightarrow> nat" where
  "position xs x = length (takeWhile (\<lambda>y. y \<noteq> x) xs)"

text \<open>
  A list respects the dependencies of the modules it holds: a dependency that does not
  depend back on the module stands before it.
\<close>

definition ordered_wrt :: "'h module_record js_map \<Rightarrow> string list \<Rightarrow> bool" where
  "ordered_wrt m xs \<longleftrightarrow>
     (\<forall>a b. a \<in> set xs \<longrightarrow> depends_on m a b \<longrightarrow> (b, a) \<notin> (dep_rel m)\<^sup>* \<longrightarrow>
            position xs b < position xs a)"

text \<open>Registries and modules for the examples below.\<close>

definition example_manifest :: "string \<Rightarrow> dependency list option \<Rightarrow> manifest" where
  "example_manifest i deps =
     \<lparr>manifest_name = Some i, version = Some ''1.0.0'', api_level = Some 4,
      target_platform = Some ''10.0.0'', dependencies = deps\<rparr>"

definition example_exports :: "string \<Rightarrow> dependency list option \<Rightarrow> 'h module_exports" where
  "example_exports i deps =
     \<lparr>HeliactylModule = Some (example_manifest i deps),
      load = LoadFunction (\<lambda>h. (None, h))\<rparr>"

definition example_module :: "string \<Rightarrow> dependency list option \<Rightarrow> 'h module_record" where
  "example_module i deps =
     \<lparr>module_id = i, path = i @ ''.js'', exports = example_exports i deps,
      manifest = example_manifest i deps\<rparr>"

definition requires :: "string \<Rightarrow> dependency" where
  "requires b = \<lparr>name = b, optional = False\<rparr>"

definition optionally :: "string \<Rightarrow> dependency" where
  "optionally b = \<lparr>name = b, optional = True\<rparr>"

definition chain_registry :: "unit module_record js_map" where
  "chain_registry =
     [(''a'', example_module ''a'' (Some [requires ''b''])),
      (''b'', example_module ''b'' (Some []))]"

definition cyclic_registry :: "unit module_record js_map" where
  "cyclic_registry =
     [(''a'', example_module ''a'' (Some [requires ''b''])),
      (''b'', example_module ''b'' (Some [requires ''a'']))]"

definition detour_registry :: "unit module_record js_map" where
  "detour_registry =
     [(''a'', example_module ''a'' (Some [requires ''c''])),
      (''b'', example_module ''b'' None),
      (''c'', example_module ''c'' (Some []))]"

text \<open>The scenario of the specification: \<open>core/auth\<close>, \<open>core/billing\<close>, \<open>extra/reports\<close>.\<close>

definition scenario_registry :: "unit module_record js_map" where
  "scenario_registry =
     [(''core/auth'', example_module ''core/auth'' (Some [])),
      (''core/billing'', example_module ''core/billing'' (Some [requires ''core/auth''])),
      (''extra/reports'', example_module ''extra/reports''
          (Some [optionally ''core/billing'', optionally ''extra/legacy'']))]"


text \<open>
  What the entry point of a registered module does when it is called on a host state:
  it is \<open>call_load\<close> on the \<open>load\<close> of the registered exports, as \<open>initializeModule\<close>
  calls it. \<open>host_after m ids h\<close> is the host state after the entry points of \<open>ids\<close>
  have run one after the other from \<open>h\<close>, and \<open>host_before m ids h i\<close> is the host state
  on which the entry point of \<open>i\<close> is called.
\<close>

definition entry_point :: "'h module_record js_map \<Rightarrow> string \<Rightarrow> 'h \<Rightarrow> thrown option \<times> 'h" where
  "entry_point m i h =
     (case map_get m i of
        None \<Rightarrow> (None, h)
      | Some module \<Rightarrow> call_load (load (exports module)) h)"

definition host_after :: "'h module_record js_map \<Rightarrow> string list \<Rightarrow> 'h \<Rightarrow> 'h" where
  "host_after m ids h = fold (\<lambda>j h'. snd (entry_point m j h')) ids h"

definition host_before :: "'h module_record js_map \<Rightarrow> string list \<Rightarrow> 'h \<Rightarrow> string \<Rightarrow> 'h" where
  "host_before m ids h i = host_after m (takeWhile (\<lambda>j. j \<noteq> i) ids) h"

text \<open>
  The two \<open>catch\<close> branches of the loader: the message each passes to \<open>logger.error\<close>
  with the caught value, whether that call throws, and what it prints.
\<close>

definition load_message :: "string \<Rightarrow> string" where
  "load_message i = ''Error loading module '' @ i @ '':''"

definition init_message :: "string \<Rightarrow> string" where
  "init_message i = ''Error initializing module '' @ i @ '':''"

definition logger_throws :: "string \<Rightarrow> thrown \<Rightarrow> bool" where
  "logger_throws message error \<longleftrightarrow> fst (RustStyleLogger_error message (Some error) []) \<noteq> None"

definition init_report :: "string \<Rightarrow> thrown \<Rightarrow> log_entry list" where
  "init_report i error = snd (RustStyleLogger_error (init_message i) (Some error) [])"

text \<open>
  \<open>load_catch_returns env cands\<close>: no value that \<open>require\<close> throws for a candidate makes
  \<open>logger.error\<close> throw in the \<open>catch\<close> of \<open>loadModule\<close>. \<open>init_catch_returns m ids h\<close>:
  no value that an entry point of \<open>ids\<close> throws or rejects with, run in this order from
  the host state \<open>h\<close>, makes \<open>logger.error\<close> throw in the \<open>catch\<close> of \<open>initializeModule\<close>.
\<close>

definition load_catch_returns :: "'h node_env \<Rightarrow> candidate list \<Rightarrow> bool" where
  "load_catch_returns env cands =
     list_all (\<lambda>c. case require_module env (candidate_path c) of
                     Inl error \<Rightarrow> \<not> logger_throws (load_message (candidate_id c)) error
                   | Inr moduleExports \<Rightarrow> True) cands"

definition init_catch_returns :: "'h module_record js_map \<Rightarrow> string list \<Rightarrow> 'h \<Rightarrow> bool" where
  "init_catch_returns m ids h =
     list_all (\<lambda>i. case fst (entry_point m i (host_before m ids h i)) of
                     None \<Rightarrow> True
                   | Some error \<Rightarrow> \<not> logger_throws (init_message i) error) ids"

text \<open>
  \<open>registers env pv al p\<close>: the file at path \<open>p\<close> passes every check of \<open>loadModule\<close> on
  a platform of version \<open>pv\<close> and API level \<open>al\<close>.
\<close>

definition registers :: "'h node_env \<Rightarrow> string \<Rightarrow> int \<Rightarrow> string \<Rightarrow> bool" where
  "registers env pv al p \<longleftrightarrow>
     (\<exists>ex mf f. require_module env p = Inr ex \<and> HeliactylModule ex = Some mf \<and>
        first_missing mf requiredFields = None \<and>
        (\<exists>n. api_level mf = Some n \<and> n \<le> al) \<and>
        (\<exists>r. target_platform mf = Some r \<and> semver_satisfies env pv r) \<and>
        load ex = LoadFunction f)"

text \<open>
  Environments and candidates for the examples: \<open>require\<close> finds the listed files, and
  a range is the one version it names, as in every manifest of the repository.
\<close>

definition example_env :: "(string \<times> 'h module_exports) list \<Rightarrow> 'h node_env" where
  "example_env files =
     \<lparr>require_module =
        (\<lambda>p. case map_of files p of
               None \<Rightarrow> Inl (ErrorObject (''Cannot find module '' @ p))
             | Some ex \<Rightarrow> Inr ex),
      semver_satisfies = (\<lambda>v r. v = r)\<rparr>"

definition candidate_of :: "string \<Rightarrow> candidate" where
  "candidate_of i = \<lparr>candidate_id = i, candidate_path = i @ ''.js''\<rparr>"

definition zero_exports :: "unit module_exports" where
  "zero_exports =
     \<lparr>HeliactylModule =
        Some ((example_manifest ''zero'' None)\<lparr>api_level := Some 0\<rparr>),
      load = LoadFunction (\<lambda>h. (None, h))\<rparr>"

definition high_exports :: "unit module_exports" where
  "high_exports =
     \<lparr>HeliactylModule =
        Some ((example_manifest ''high'' None)\<lparr>api_level := Some 5\<rparr>),
      load = LoadFunction (\<lambda>h. (None, h))\<rparr>"

definition gating_env :: "unit node_env" where
  "gating_env = example_env
     [(''zero.js'', zero_exports), (''high.js'', high_exports),
      (''ok.js'', example_exports ''ok'' None)]"

definition gating_cands :: "candidate list" where
  "gating_cands = [candidate_of ''zero'', candidate_of ''high'', candidate_of ''ok'']"

definition gating_result :: "(thrown + unit module_record js_map) \<times> unit ModuleLoader" where
  "gating_result = loadAllModules gating_env (ModuleLoader_new () ''10.0.0'' 4) gating_cands"

text \<open>
  Two modules, \<open>bad\<close> discovered before \<open>good\<close>. Each entry point appends its name to the
  host state, a list, so that the host state tells which entry points were called;
  the one of \<open>bad\<close> then rejects with the value given.
\<close>

definition noisy_exports :: "string \<Rightarrow> thrown option \<Rightarrow> string list module_exports" where
  "noisy_exports i outcome =
     \<lparr>HeliactylModule = Some (example_manifest i None),
      load = LoadFunction (\<lambda>h. (outcome, h @ [i]))\<rparr>"

definition noisy_env :: "thrown \<Rightarrow> string list node_env" where
  "noisy_env error = example_env
     [(''bad.js'', noisy_exports ''bad'' (Some error)),
      (''good.js'', noisy_exports ''good'' None)]"

definition noisy_cands :: "candidate list" where
  "noisy_cands = [candidate_of ''bad'', candidate_of ''good'']"

definition noisy_result ::
  "thrown \<Rightarrow> (thrown + string list module_record js_map) \<times> string list ModuleLoader" where
  "noisy_result error =
     loadAllModules (noisy_env error) (ModuleLoader_new [] ''10.0.0'' 4) noisy_cands"


text \<open>One module with a required and an optional dependency that are not registered.\<close>

definition lonely_env :: "string \<Rightarrow> unit node_env" where
  "lonely_env required = example_env
     [(''a.js'', example_exports ''a'' (Some [requires required, optionally ''absent'']))]"

definition lonely_result :: "string \<Rightarrow> (thrown + unit module_record js_map) \<times> unit ModuleLoader" where
  "lonely_result required =
     loadAllModules (lonely_env required) (ModuleLoader_new () ''10.0.0'' 4) [candidate_of ''a'']"

definition lonely_loaded :: "string \<Rightarrow> unit module_record js_map" where
  "lonely_loaded required =
     [(''a'', \<lparr>module_id = ''a'', path = ''a.js'',
              exports = example_exports ''a'' (Some [requires required, optionally ''absent'']),
              manifest = example_manifest ''a'' (Some [requires required, optionally ''absent''])\<rparr>)]"


text \<open>
  A configuration store for the examples: paths resolve under \<open>/srv/\<close>, and the
  parser knows two documents and rejects every other text.
\<close>

definition config_empty :: config_state where
  "config_empty = \<lparr>configStore = [], heap = [], watchers = [], console = []\<rparr>"

definition demo_env :: config_env where
  "demo_env =
     \<lparr>resolve = (\<lambda>p. ''/srv/'' @ p),
      basename = (\<lambda>p. drop 5 p),
      toml_parse =
        (\<lambda>s. if s = ''a = 1'' then Inr [(''a'', TInteger 1)]
             else if s = ''a = 2'' then Inr [(''a'', TInteger 2)]
             else Inl ''Unexpected character'')\<rparr>"

definition demo_fs :: "string \<Rightarrow> string \<Rightarrow> fs_entry" where
  "demo_fs content p = (if p = ''/srv/config.toml'' then File content else Missing)"

definition demo_loaded :: config_state where
  "demo_loaded =
     \<lparr>configStore = [(''/srv/config.toml'', \<lparr>data = 0, watcher = 0\<rparr>)],
      heap = [[(''a'', JNumber 1)]],
      watchers = [(''/srv/config.toml'', 0)],
      console = []\<rparr>"

text \<open>The JavaScript value of a parsed scalar; arrays and tables are not scalars.\<close>

fun scalar_value :: "toml \<Rightarrow> jsval option" where
  "scalar_value (TBoolean b) = Some (JBoolean b)"
| "scalar_value (TInteger n) = Some (JNumber n)"
| "scalar_value (TString s) = Some (JString s)"
| "scalar_value (TArray items) = None"
| "scalar_value (TTable table) = None"

section \<open>Properties of the dependency sort\<close>

lemma logger_error_fields [simp]:
  "visited (logger_error msg s) = visited s"
  "visiting (logger_error msg s) = visiting s"
  "sorted_ids (logger_error msg s) = sorted_ids s"
  "logged (logger_error msg s)
     = (if shouldFilter msg then logged s else logged s @ [LogError msg])"
  by (simp_all add: logger_error_def RustStyleLogger_error_def RustStyleLogger_log_def)

lemma logger_warn_fields [simp]:
  "visited (logger_warn msg s) = visited s"
  "visiting (logger_warn msg s) = visiting s"
  "sorted_ids (logger_warn msg s) = sorted_ids s"
  "logged (logger_warn msg s) = logged s @ [LogWarn msg]"
  by (simp_all add: logger_warn_def RustStyleLogger_warn_def RustStyleLogger_log_def)

lemma map_get_Some_keys: "map_get m k = Some v \<Longrightarrow> k \<in> set (map_keys m)"
  by (auto simp: map_get_def map_keys_def dest: map_of_SomeD intro: rev_image_eqI)

text \<open>
  The equation of \<open>visit\<close>, one case at a time: the module is done, or it is being
  visited (a cycle), or it is new, and then the body runs between \<open>enter\<close> and \<open>leave\<close>.
\<close>

lemma enter_fields [simp]:
  "visited (enter i s) = visited s"
  "visiting (enter i s) = insert i (visiting s)"
  "sorted_ids (enter i s) = sorted_ids s"
  "logged (enter i s) = logged s"
  by (simp_all add: enter_def)

lemma leave_fields [simp]:
  "visited (leave i s) = insert i (visited s)"
  "visiting (leave i s) = visiting s - {i}"
  "sorted_ids (leave i s) = sorted_ids s @ [i]"
  "logged (leave i s) = logged s"
  by (simp_all add: leave_def)

lemma visit_done: "i \<in> visited s \<Longrightarrow> visit m i s = s"
  by (simp add: visit.simps)

lemma visit_cycle:
  "i \<notin> visited s \<Longrightarrow> i \<in> visiting s \<Longrightarrow>
   visit m i s = logger_error (''Circular dependency detected involving module '' @ i) s"
  by (simp add: visit.simps)

lemma visit_fresh:
  "i \<notin> visited s \<Longrightarrow> i \<notin> visiting s \<Longrightarrow>
   visit m i s = leave i (visit_deps m i (declared_deps m i) (enter i s))"
  by (simp add: visit.simps declared_deps_def enter_def leave_def Let_def
           split: option.splits)

lemma visit_deps_missing:
  "\<not> map_has m (name d) \<Longrightarrow>
   visit_deps m i (d # ds) s =
     visit_deps m i ds (s\<lparr>logged := logged s @ report_missing i d\<rparr>)"
  by (simp add: report_missing_def logger_warn_def logger_error_def RustStyleLogger_warn_def
        RustStyleLogger_error_def RustStyleLogger_log_def)

lemma visit_deps_present:
  "map_has m (name d) \<Longrightarrow>
   visit_deps m i (d # ds) s = visit_deps m i ds (visit m (name d) s)"
  by simp

text \<open>
  Induction along the calls: \<open>P\<close> for \<open>visit\<close>, \<open>Q\<close> for the loop over the
  dependencies still to go.
\<close>

lemma visit_induct [case_names visit nil missing present]:
  assumes "\<And>m i s.
      (i \<notin> visited s \<Longrightarrow> i \<notin> visiting s \<Longrightarrow> Q m i (declared_deps m i) (enter i s))
      \<Longrightarrow> P m i s"
    and "\<And>m i s. Q m i [] s"
    and "\<And>m i d ds s. \<not> map_has m (name d) \<Longrightarrow>
        Q m i ds (s\<lparr>logged := logged s @ report_missing i d\<rparr>) \<Longrightarrow> Q m i (d # ds) s"
    and "\<And>m i d ds s. map_has m (name d) \<Longrightarrow> P m (name d) s \<Longrightarrow>
        Q m i ds (visit m (name d) s) \<Longrightarrow> Q m i (d # ds) s"
  shows "P (m :: 'h module_record js_map) i s" and "Q m i ds s"
proof (induction m i s and m i ds s rule: visit_visit_deps.induct)
  case (1 m i s)
  show ?case
  proof (rule assms(1))
    assume fresh: "i \<notin> visited s" "i \<notin> visiting s"
    show "Q m i (declared_deps m i) (enter i s)"
    proof (cases "map_get m i")
      case None
      then show ?thesis by (simp add: declared_deps_def assms(2))
    next
      case (Some module)
      note got = this
      show ?thesis
      proof (cases "dependencies (manifest module)")
        case None
        then show ?thesis using got by (simp add: declared_deps_def assms(2))
      next
        case (Some deps)
        have "Q m i deps (enter i s)"
          unfolding enter_def using fresh got Some by (intro 1) auto
        then show ?thesis using got Some by (simp add: declared_deps_def)
      qed
    qed
  qed
next
  case (2 m i s)
  show ?case by (rule assms(2))
next
  case (3 m i d ds s)
  show ?case
  proof (cases "map_has m (name d)")
    case True
    then show ?thesis using 3 by (intro assms(4)) auto
  next
    case False
    have "Q m i ds (if optional d
            then logger_warn (''Optional dependency '' @ name d @ '' for module '' @ i @ '' not found'') s
            else logger_error (''Required dependency '' @ name d @ '' for module '' @ i @ '' not found'') s)"
      using False by (intro 3(1)) auto
    then have "Q m i ds (s\<lparr>logged := logged s @ report_missing i d\<rparr>)"
      by (simp add: report_missing_def logger_warn_def logger_error_def RustStyleLogger_warn_def
            RustStyleLogger_error_def RustStyleLogger_log_def split: if_splits)
    then show ?thesis using False by (intro assms(3)) auto
  qed
qed

text \<open>
  What a call does to the state: \<open>visiting\<close> is as before; the array grows by
  identifiers that were in neither set, each once, all of them registry keys (or the
  argument itself); \<open>visited\<close> grows by the same identifiers; the log only grows.
\<close>

lemma visit_effect:
  "visiting (visit m i s) = visiting s \<and>
   (\<exists>ext. sorted_ids (visit m i s) = sorted_ids s @ ext \<and>
          visited (visit m i s) = visited s \<union> set ext \<and> distinct ext \<and>
          set ext \<inter> (visited s \<union> visiting s) = {} \<and>
          set ext \<subseteq> insert i (set (map_keys m))) \<and>
   (\<exists>l. logged (visit m i s) = logged s @ l)"
  "visiting (visit_deps m i ds s) = visiting s \<and>
   (\<exists>ext. sorted_ids (visit_deps m i ds s) = sorted_ids s @ ext \<and>
          visited (visit_deps m i ds s) = visited s \<union> set ext \<and> distinct ext \<and>
          set ext \<inter> (visited s \<union> visiting s) = {} \<and>
          set ext \<subseteq> set (map_keys m)) \<and>
   (\<exists>l. logged (visit_deps m i ds s) = logged s @ l)"
proof (induction m i s and m i ds s rule: visit_induct)
  case (visit m i s)
  show ?case
  proof (cases "i \<in> visited s")
    case True
    then show ?thesis by (simp add: visit_done)
  next
    case False
    note nv = this
    show ?thesis
    proof (cases "i \<in> visiting s")
      case True
      then show ?thesis using nv by (simp add: visit_cycle)
    next
      case False
      let ?r = "visit_deps m i (declared_deps m i) (enter i s)"
      from visit[OF nv False] obtain ext l where
        v: "visiting ?r = insert i (visiting s)" and
        e: "sorted_ids ?r = sorted_ids s @ ext" "visited ?r = visited s \<union> set ext"
           "distinct ext" "set ext \<inter> (visited s \<union> insert i (visiting s)) = {}"
           "set ext \<subseteq> set (map_keys m)" and
        l: "logged ?r = logged s @ l"
        by auto
      have "sorted_ids (leave i ?r) = sorted_ids s @ (ext @ [i])"
        using e by simp
      moreover have "visited (leave i ?r) = visited s \<union> set (ext @ [i])"
        using e by auto
      moreover have "distinct (ext @ [i])" using e by auto
      moreover have "set (ext @ [i]) \<inter> (visited s \<union> visiting s) = {}"
        using e nv False by auto
      moreover have "set (ext @ [i]) \<subseteq> insert i (set (map_keys m))"
        using e by auto
      moreover have "visiting (leave i ?r) = visiting s"
        using v False by auto
      moreover have "logged (leave i ?r) = logged s @ l" using l by simp
      ultimately show ?thesis
        unfolding visit_fresh[OF nv False] by blast
    qed
  qed
next
  case (nil m i s)
  show ?case by simp
next
  case (missing m i d ds s)
  let ?s = "s\<lparr>logged := logged s @ report_missing i d\<rparr>"
  from missing(2) obtain ext l where
    "visiting (visit_deps m i ds ?s) = visiting s"
    "sorted_ids (visit_deps m i ds ?s) = sorted_ids s @ ext"
    "visited (visit_deps m i ds ?s) = visited s \<union> set ext"
    "distinct ext" "set ext \<inter> (visited s \<union> visiting s) = {}"
    "set ext \<subseteq> set (map_keys m)"
    "logged (visit_deps m i ds ?s) = logged s @ report_missing i d @ l"
    by auto
  then show ?case
    unfolding visit_deps_missing[OF missing(1)] by blast
next
  case (present m i d ds s)
  let ?a = "visit m (name d) s"
  let ?b = "visit_deps m i ds ?a"
  from present(2) obtain e1 l1 where
    a: "visiting ?a = visiting s" "sorted_ids ?a = sorted_ids s @ e1"
       "visited ?a = visited s \<union> set e1" "distinct e1"
       "set e1 \<inter> (visited s \<union> visiting s) = {}"
       "set e1 \<subseteq> insert (name d) (set (map_keys m))"
       "logged ?a = logged s @ l1"
    by auto
  from present(3) obtain e2 l2 where
    b: "visiting ?b = visiting ?a" "sorted_ids ?b = sorted_ids ?a @ e2"
       "visited ?b = visited ?a \<union> set e2" "distinct e2"
       "set e2 \<inter> (visited ?a \<union> visiting ?a) = {}"
       "set e2 \<subseteq> set (map_keys m)"
       "logged ?b = logged ?a @ l2"
    by auto
  have k: "name d \<in> set (map_keys m)"
    using present(1) by (simp add: map_has_def map_keys_def)
  have "visiting ?b = visiting s" using a b by simp
  moreover have "sorted_ids ?b = sorted_ids s @ (e1 @ e2)" using a b by simp
  moreover have "visited ?b = visited s \<union> set (e1 @ e2)" using a b by auto
  moreover have "distinct (e1 @ e2)" using a b by auto
  moreover have "set (e1 @ e2) \<inter> (visited s \<union> visiting s) = {}" using a b by auto
  moreover have "set (e1 @ e2) \<subseteq> set (map_keys m)" using a b k by auto
  moreover have "logged ?b = logged s @ (l1 @ l2)" using a b by simp
  ultimately show ?case
    unfolding visit_deps_present[OF present(1)] by blast
qed

text \<open>
  After \<open>visit\<close> the module is done unless it was being visited; after the loop so is
  every registered dependency of the list.
\<close>

lemma visit_marks: "i \<in> visited (visit m i s) \<or> i \<in> visiting s"
proof (cases "i \<in> visited s \<or> i \<in> visiting s")
  case True
  then show ?thesis by (auto simp: visit_done)
next
  case False
  then show ?thesis by (simp add: visit_fresh)
qed

lemma visit_deps_marks:
  "d \<in> set ds \<Longrightarrow> map_has m (name d) \<Longrightarrow>
   name d \<in> visited (visit_deps m i ds s) \<union> visiting s"
proof (induction ds arbitrary: s)
  case Nil
  then show ?case by simp
next
  case (Cons e ds)
  show ?case
  proof (cases "map_has m (name e)")
    case False
    then have "d \<in> set ds" using Cons.prems by auto
    from Cons.IH[OF this Cons.prems(2), of "s\<lparr>logged := logged s @ report_missing i e\<rparr>"]
    show ?thesis unfolding visit_deps_missing[OF False] by simp
  next
    case True
    let ?a = "visit m (name e) s"
    have mono: "visited ?a \<subseteq> visited (visit_deps m i ds ?a)"
      using visit_effect(2)[of m i ds ?a] by auto
    have va: "visiting ?a = visiting s"
      using visit_effect(1)[of m "name e" s] by simp
    show ?thesis
    proof (cases "d = e")
      case True
      then show ?thesis
        using visit_marks[of "name e" m s] mono
        unfolding visit_deps_present[OF \<open>map_has m (name e)\<close>] by auto
    next
      case False
      then have "d \<in> set ds" using Cons.prems by auto
      from Cons.IH[OF this Cons.prems(2), of ?a]
      show ?thesis
        unfolding visit_deps_present[OF True] va by simp
    qed
  qed
qed

lemma visit_keys_append:
  "visit_keys m (ks @ ks') s = visit_keys m ks' (visit_keys m ks s)"
  by (induction ks arbitrary: s) auto

lemma visit_keys_effect:
  "visiting (visit_keys m ks s) = visiting s \<and>
   (\<exists>ext. sorted_ids (visit_keys m ks s) = sorted_ids s @ ext \<and>
          visited (visit_keys m ks s) = visited s \<union> set ext \<and> distinct ext \<and>
          set ext \<inter> (visited s \<union> visiting s) = {} \<and>
          set ext \<subseteq> set ks \<union> set (map_keys m)) \<and>
   (\<exists>l. logged (visit_keys m ks s) = logged s @ l) \<and>
   set ks \<subseteq> visited (visit_keys m ks s) \<union> visiting s"
proof (induction ks arbitrary: s)
  case Nil
  then show ?case by simp
next
  case (Cons k ks)
  let ?a = "visit m k s"
  let ?b = "visit_keys m ks ?a"
  from visit_effect(1)[of m k s] obtain e1 l1 where
    a: "visiting ?a = visiting s" "sorted_ids ?a = sorted_ids s @ e1"
       "visited ?a = visited s \<union> set e1" "distinct e1"
       "set e1 \<inter> (visited s \<union> visiting s) = {}"
       "set e1 \<subseteq> insert k (set (map_keys m))"
       "logged ?a = logged s @ l1"
    by auto
  from Cons.IH[of ?a] obtain e2 l2 where
    b: "visiting ?b = visiting ?a" "sorted_ids ?b = sorted_ids ?a @ e2"
       "visited ?b = visited ?a \<union> set e2" "distinct e2"
       "set e2 \<inter> (visited ?a \<union> visiting ?a) = {}"
       "set e2 \<subseteq> set ks \<union> set (map_keys m)"
       "logged ?b = logged ?a @ l2"
       "set ks \<subseteq> visited ?b \<union> visiting ?a"
    by auto
  have "visiting ?b = visiting s" using a b by simp
  moreover have "sorted_ids ?b = sorted_ids s @ (e1 @ e2)" using a b by simp
  moreover have "visited ?b = visited s \<union> set (e1 @ e2)" using a b by auto
  moreover have "distinct (e1 @ e2)" using a b by auto
  moreover have "set (e1 @ e2) \<inter> (visited s \<union> visiting s) = {}" using a b by auto
  moreover have "set (e1 @ e2) \<subseteq> set (k # ks) \<union> set (map_keys m)" using a b by auto
  moreover have "logged ?b = logged s @ (l1 @ l2)" using a b by simp
  moreover have "set (k # ks) \<subseteq> visited ?b \<union> visiting s"
    using a b visit_marks[of k m s] by auto
  ultimately show ?case
    unfolding visit_keys.simps by blast
qed

lemma sort_run_facts:
  "distinct (sorted_ids (sort_run m))"
  "set (sorted_ids (sort_run m)) = set (map_keys m)"
  "visited (sort_run m) = set (map_keys m)"
  "visiting (sort_run m) = {}"
proof -
  from visit_keys_effect[of m "map_keys m" sort_init] obtain ext where
    e: "sorted_ids (sort_run m) = ext" "visited (sort_run m) = set ext" "distinct ext"
       "set ext \<subseteq> set (map_keys m)" "set (map_keys m) \<subseteq> visited (sort_run m)"
       "visiting (sort_run m) = {}"
    unfolding sort_run_def sort_init_def by auto
  show "distinct (sorted_ids (sort_run m))" using e by simp
  show "set (sorted_ids (sort_run m)) = set (map_keys m)" using e by auto
  show "visited (sort_run m) = set (map_keys m)" using e by auto
  show "visiting (sort_run m) = {}" using e by simp
qed

text \<open>
  Positions, and the order invariant: appending a module whose dependencies that do
  not lead back to it are all in the list keeps the list ordered.
\<close>

lemma position_append_in: "x \<in> set xs \<Longrightarrow> position (xs @ ys) x = position xs x"
  by (induction xs) (auto simp: position_def)

lemma position_append_out:
  "x \<notin> set xs \<Longrightarrow> position (xs @ ys) x = length xs + position ys x"
  by (induction xs) (auto simp: position_def)

lemma position_less_iff: "position xs x < length xs \<longleftrightarrow> x \<in> set xs"
  by (induction xs) (auto simp: position_def)

lemma ordered_wrt_snoc:
  assumes "ordered_wrt m xs" "i \<notin> set xs"
    and "\<And>b. depends_on m i b \<Longrightarrow> (b, i) \<notin> (dep_rel m)\<^sup>* \<Longrightarrow> b \<in> set xs"
  shows "ordered_wrt m (xs @ [i])"
  unfolding ordered_wrt_def
proof (intro allI impI)
  fix a b
  assume a: "a \<in> set (xs @ [i])" and d: "depends_on m a b" and r: "(b, a) \<notin> (dep_rel m)\<^sup>*"
  show "position (xs @ [i]) b < position (xs @ [i]) a"
  proof (cases "a = i")
    case True
    then have "b \<in> set xs" using assms(3) d r by simp
    then have "position (xs @ [i]) b < length xs"
      by (simp add: position_append_in position_less_iff)
    moreover have "position (xs @ [i]) i = length xs"
      using assms(2) by (simp add: position_append_out) (simp add: position_def)
    ultimately show ?thesis using True by simp
  next
    case False
    then have ax: "a \<in> set xs" using a by simp
    then have lt: "position xs b < position xs a"
      using assms(1) d r unfolding ordered_wrt_def by blast
    moreover have "position xs a < length xs" using ax by (simp add: position_less_iff)
    ultimately have "b \<in> set xs" using position_less_iff[of xs b] by simp
    then show ?thesis using ax lt by (simp add: position_append_in)
  qed
qed

text \<open>
  \<open>visit\<close> keeps the array ordered. The modules being visited are the chain of
  callers, each of which depends on the next and so on the argument: a dependency that
  is found in \<open>visiting\<close> leads back to the module that names it.
\<close>

lemma visit_ordered:
  "set (sorted_ids s) = visited s \<Longrightarrow> visited s \<inter> visiting s = {} \<Longrightarrow>
   (\<forall>v \<in> visiting s. (v, i) \<in> (dep_rel m)\<^sup>*) \<Longrightarrow>
   ordered_wrt m (sorted_ids s) \<Longrightarrow> ordered_wrt m (sorted_ids (visit m i s))"
  "set (sorted_ids s) = visited s \<Longrightarrow> visited s \<inter> visiting s = {} \<Longrightarrow>
   (\<forall>v \<in> visiting s. (v, i) \<in> (dep_rel m)\<^sup>*) \<Longrightarrow>
   set ds \<subseteq> set (declared_deps m i) \<Longrightarrow>
   ordered_wrt m (sorted_ids s) \<Longrightarrow> ordered_wrt m (sorted_ids (visit_deps m i ds s))"
proof (induction m i s and m i ds s rule: visit_induct)
  case (visit m i s)
  show ?case
  proof (cases "i \<in> visited s")
    case True
    then show ?thesis using visit.prems by (simp add: visit_done)
  next
    case False
    note nv = this
    show ?thesis
    proof (cases "i \<in> visiting s")
      case True
      then show ?thesis using nv visit.prems by (simp add: visit_cycle)
    next
      case False
      let ?r = "visit_deps m i (declared_deps m i) (enter i s)"
      have ord: "ordered_wrt m (sorted_ids ?r)"
        using visit.prems nv False by (intro visit.IH) auto
      from visit_effect(2)[of m i "declared_deps m i" "enter i s"] obtain ext where
        e: "sorted_ids ?r = sorted_ids s @ ext" "visited ?r = visited s \<union> set ext"
           "set ext \<inter> (visited s \<union> insert i (visiting s)) = {}"
        by auto
      have sv: "set (sorted_ids ?r) = visited ?r" using e visit.prems(1) by simp
      have ni: "i \<notin> set (sorted_ids ?r)" using sv e nv by auto
      have "ordered_wrt m (sorted_ids ?r @ [i])"
      proof (rule ordered_wrt_snoc[OF ord ni])
        fix b
        assume d: "depends_on m i b" and r: "(b, i) \<notin> (dep_rel m)\<^sup>*"
        from d obtain dd where dd: "dd \<in> set (declared_deps m i)" "name dd = b" "map_has m b"
          unfolding depends_on_def by auto
        from visit_deps_marks[OF dd(1), of m i "enter i s"] dd
        have "b \<in> visited ?r \<union> insert i (visiting s)" by simp
        moreover have "b \<noteq> i" using r by auto
        moreover have "b \<notin> visiting s" using r visit.prems(3) by auto
        ultimately show "b \<in> set (sorted_ids ?r)" using sv by auto
      qed
      then show ?thesis unfolding visit_fresh[OF nv False] by simp
    qed
  qed
next
  case (nil m i s)
  then show ?case by simp
next
  case (missing m i d ds s)
  have "ordered_wrt m (sorted_ids (visit_deps m i ds (s\<lparr>logged := logged s @ report_missing i d\<rparr>)))"
    using missing.prems by (intro missing.IH) auto
  then show ?case unfolding visit_deps_missing[OF missing.hyps] .
next
  case (present m i d ds s)
  let ?a = "visit m (name d) s"
  have edge: "(i, name d) \<in> dep_rel m"
    using present.hyps present.prems(4) by (auto simp: dep_rel_def depends_on_def)
  have reach: "\<forall>v \<in> visiting s. (v, name d) \<in> (dep_rel m)\<^sup>*"
    using present.prems(3) edge by (meson rtrancl.rtrancl_into_rtrancl)
  have oa: "ordered_wrt m (sorted_ids ?a)"
    using present.prems reach by (intro present.IH(1)) auto
  from visit_effect(1)[of m "name d" s] obtain ext where
    e: "visiting ?a = visiting s" "sorted_ids ?a = sorted_ids s @ ext"
       "visited ?a = visited s \<union> set ext" "set ext \<inter> (visited s \<union> visiting s) = {}"
    by auto
  have "ordered_wrt m (sorted_ids (visit_deps m i ds ?a))"
  proof (intro present.IH(2))
    show "set (sorted_ids ?a) = visited ?a" using e present.prems(1) by simp
    show "visited ?a \<inter> visiting ?a = {}" using e present.prems(2) by auto
    show "\<forall>v\<in>visiting ?a. (v, i) \<in> (dep_rel m)\<^sup>*" using e present.prems(3) by simp
    show "set ds \<subseteq> set (declared_deps m i)" using present.prems(4) by simp
    show "ordered_wrt m (sorted_ids ?a)" by (rule oa)
  qed
  then show ?case unfolding visit_deps_present[OF present.hyps] .
qed

lemma visit_keys_ordered:
  "set (sorted_ids s) = visited s \<Longrightarrow> visiting s = {} \<Longrightarrow>
   ordered_wrt m (sorted_ids s) \<Longrightarrow> ordered_wrt m (sorted_ids (visit_keys m ks s))"
proof (induction ks arbitrary: s)
  case Nil
  then show ?case by simp
next
  case (Cons k ks)
  let ?a = "visit m k s"
  from visit_effect(1)[of m k s] obtain ext where
    e: "visiting ?a = visiting s" "sorted_ids ?a = sorted_ids s @ ext"
       "visited ?a = visited s \<union> set ext"
    by auto
  have "ordered_wrt m (sorted_ids ?a)"
    using Cons.prems by (intro visit_ordered(1)) auto
  then have "ordered_wrt m (sorted_ids (visit_keys m ks ?a))"
    using e Cons.prems by (intro Cons.IH) auto
  then show ?case by simp
qed

lemma sort_run_ordered: "ordered_wrt m (sorted_ids (sort_run m))"
  unfolding sort_run_def
  by (rule visit_keys_ordered) (simp_all add: sort_init_def ordered_wrt_def)

lemma declared_deps_key: "d \<in> set (declared_deps m a) \<Longrightarrow> a \<in> set (map_keys m)"
  by (auto simp: declared_deps_def split: option.splits dest: map_get_Some_keys[OF sym])

lemma visit_cases [case_names finished cycle fresh]:
  obtains "i \<in> visited s" "visit m i s = s"
  | "i \<notin> visited s" "i \<in> visiting s"
    "visit m i s = logger_error (''Circular dependency detected involving module '' @ i) s"
  | "i \<notin> visited s" "i \<notin> visiting s"
    "visit m i s = leave i (visit_deps m i (declared_deps m i) (enter i s))"
  using visit_done visit_cycle visit_fresh by blast

lemma position_le: "position xs x \<le> length xs"
  by (simp add: position_def length_takeWhile_le)

lemma nth_position: "position xs x < length xs \<Longrightarrow> xs ! position xs x = x"
  unfolding position_def using nth_length_takeWhile[of "\<lambda>y. y \<noteq> x" xs] by simp

text \<open>
  A call of \<open>visit\<close> appends only the module and what it depends on.
\<close>

lemma visit_within_reach:
  "set (sorted_ids (visit m i s)) \<subseteq> set (sorted_ids s) \<union> {j. (i, j) \<in> (dep_rel m)\<^sup>*}"
  "set ds \<subseteq> set (declared_deps m i) \<Longrightarrow>
   set (sorted_ids (visit_deps m i ds s))
     \<subseteq> set (sorted_ids s) \<union> {j. (i, j) \<in> (dep_rel m)\<^sup>*}"
proof (induction m i s and m i ds s rule: visit_induct)
  case (visit m i s)
  show ?case
  proof (cases rule: visit_cases[of i s m])
    case finished
    then show ?thesis by simp
  next
    case cycle
    then show ?thesis by simp
  next
    case fresh
    from visit[OF fresh(1,2)] show ?thesis unfolding fresh(3) by auto
  qed
next
  case (nil m i s)
  then show ?case by simp
next
  case (missing m i d ds s)
  then show ?case unfolding visit_deps_missing[OF missing.hyps] by auto
next
  case (present m i d ds s)
  let ?a = "visit m (name d) s"
  have edge: "(i, name d) \<in> dep_rel m"
    using present.hyps present.prems by (auto simp: dep_rel_def depends_on_def)
  have "{j. (name d, j) \<in> (dep_rel m)\<^sup>*} \<subseteq> {j. (i, j) \<in> (dep_rel m)\<^sup>*}"
    using edge by (auto intro: converse_rtrancl_into_rtrancl)
  moreover have "set (sorted_ids (visit_deps m i ds ?a))
      \<subseteq> set (sorted_ids ?a) \<union> {j. (i, j) \<in> (dep_rel m)\<^sup>*}"
    using present.prems by (intro present.IH(2)) auto
  ultimately show ?case
    using present.IH(1) unfolding visit_deps_present[OF present.hyps] by blast
qed

lemma visit_keys_within_reach:
  "set (sorted_ids (visit_keys m ks s))
     \<subseteq> set (sorted_ids s) \<union> {j. \<exists>k \<in> set ks. (k, j) \<in> (dep_rel m)\<^sup>*}"
proof (induction ks arbitrary: s)
  case Nil
  then show ?case by simp
next
  case (Cons k ks)
  from Cons.IH[of "visit m k s"] visit_within_reach(1)[of m k s]
  show ?case by auto
qed

text \<open>
  Every module that is done has its missing dependencies in the log.
\<close>

lemma visit_reports:
  "(\<forall>a \<in> visited s. \<forall>d \<in> set (declared_deps m a). \<not> map_has m (name d)
        \<longrightarrow> set (report_missing a d) \<subseteq> set (logged s)) \<Longrightarrow>
   (\<forall>a \<in> visited (visit m i s). \<forall>d \<in> set (declared_deps m a). \<not> map_has m (name d)
        \<longrightarrow> set (report_missing a d) \<subseteq> set (logged (visit m i s)))"
  "(\<forall>a \<in> visited s. \<forall>d \<in> set (declared_deps m a). \<not> map_has m (name d)
        \<longrightarrow> set (report_missing a d) \<subseteq> set (logged s)) \<Longrightarrow>
   (\<forall>a \<in> visited (visit_deps m i ds s). \<forall>d \<in> set (declared_deps m a). \<not> map_has m (name d)
        \<longrightarrow> set (report_missing a d) \<subseteq> set (logged (visit_deps m i ds s))) \<and>
   (\<forall>d \<in> set ds. \<not> map_has m (name d)
        \<longrightarrow> set (report_missing i d) \<subseteq> set (logged (visit_deps m i ds s)))"
proof (induction m i s and m i ds s rule: visit_induct)
  case (visit m i s)
  show ?case
  proof (cases rule: visit_cases[of i s m])
    case finished
    then show ?thesis using visit.prems by simp
  next
    case cycle
    have a: "visited (visit m i s) = visited s" "set (logged s) \<subseteq> set (logged (visit m i s))"
      unfolding cycle(3) by auto
    show ?thesis unfolding a(1) using visit.prems a(2) by blast
  next
    case fresh
    have "\<forall>a\<in>visited (enter i s). \<forall>d\<in>set (declared_deps m a).
       \<not> map_has m (name d) \<longrightarrow> set (report_missing a d) \<subseteq> set (logged (enter i s))"
      using visit.prems by simp
    from visit.IH[OF fresh(1,2) this] show ?thesis unfolding fresh(3) by auto
  qed
next
  case (nil m i s)
  then show ?case by simp
next
  case (missing m i d ds s)
  let ?s = "s\<lparr>logged := logged s @ report_missing i d\<rparr>"
  have "\<forall>a\<in>visited ?s. \<forall>d\<in>set (declared_deps m a).
       \<not> map_has m (name d) \<longrightarrow> set (report_missing a d) \<subseteq> set (logged ?s)"
    using missing.prems by auto
  from missing.IH[OF this] have
    1: "\<forall>a \<in> visited (visit_deps m i ds ?s). \<forall>d \<in> set (declared_deps m a). \<not> map_has m (name d)
        \<longrightarrow> set (report_missing a d) \<subseteq> set (logged (visit_deps m i ds ?s))" and
    2: "\<forall>d \<in> set ds. \<not> map_has m (name d)
        \<longrightarrow> set (report_missing i d) \<subseteq> set (logged (visit_deps m i ds ?s))"
    by blast+
  from visit_effect(2)[of m i ds ?s] obtain l where
    "logged (visit_deps m i ds ?s) = logged s @ report_missing i d @ l" by auto
  then have "set (report_missing i d) \<subseteq> set (logged (visit_deps m i ds ?s))" by auto
  with 1 2 show ?case unfolding visit_deps_missing[OF missing.hyps] by simp
next
  case (present m i d ds s)
  let ?a = "visit m (name d) s"
  from present.IH(2)[OF present.IH(1)[OF present.prems]]
  show ?case using present.hyps unfolding visit_deps_present[OF present.hyps] by simp
qed

lemma visit_keys_reports:
  "(\<forall>a \<in> visited s. \<forall>d \<in> set (declared_deps m a). \<not> map_has m (name d)
        \<longrightarrow> set (report_missing a d) \<subseteq> set (logged s)) \<Longrightarrow>
   (\<forall>a \<in> visited (visit_keys m ks s). \<forall>d \<in> set (declared_deps m a). \<not> map_has m (name d)
        \<longrightarrow> set (report_missing a d) \<subseteq> set (logged (visit_keys m ks s)))"
proof (induction ks arbitrary: s)
  case Nil
  then show ?case by simp
next
  case (Cons k ks)
  from Cons.IH[OF visit_reports(1)[OF Cons.prems]]
  show ?case by simp
qed

lemma sort_run_reports:
  assumes "d \<in> set (declared_deps m a)" "\<not> map_has m (name d)"
  shows "set (report_missing a d) \<subseteq> set (logged (sort_run m))"
proof -
  have "a \<in> visited (sort_run m)"
    using assms(1) by (simp add: sort_run_facts declared_deps_key)
  moreover have "\<forall>a \<in> visited (sort_run m). \<forall>d \<in> set (declared_deps m a). \<not> map_has m (name d)
        \<longrightarrow> set (report_missing a d) \<subseteq> set (logged (sort_run m))"
    unfolding sort_run_def by (rule visit_keys_reports) (simp add: sort_init_def)
  ultimately show ?thesis using assms by blast
qed

section \<open>The dependency sort: C1, C2 and C9\<close>

lemmas sort_eval =
  sortModulesByDependency_def sortModulesByDependency_log_def sort_run_def sort_init_def
  map_keys_def map_get_def map_has_def
  visit_done visit_cycle visit_fresh declared_deps_def enter_def leave_def
  logger_error_def logger_warn_def RustStyleLogger_error_def RustStyleLogger_warn_def
  RustStyleLogger_log_def shouldFilter_def ERROR_FILTERS_patterns_def
  example_module_def example_exports_def example_manifest_def requires_def optionally_def

lemma rtrancl_stays:
  assumes "(x, y) \<in> R\<^sup>*" and "x \<in> S" and "\<And>u v. (u, v) \<in> R \<Longrightarrow> u \<in> S \<Longrightarrow> v \<in> S"
  shows "y \<in> S"
  using assms by (induction rule: rtrancl_induct) auto

lemma cyclic_registry_sorted: "sortModulesByDependency cyclic_registry = [''b'', ''a'']"
  by (simp add: cyclic_registry_def sort_eval)

lemma cyclic_registry_logged:
  "sortModulesByDependency_log cyclic_registry
     = [LogError ''Circular dependency detected involving module a'']"
  by (simp add: cyclic_registry_def sort_eval)

lemma chain_registry_sorted: "sortModulesByDependency chain_registry = [''b'', ''a'']"
  by (simp add: chain_registry_def sort_eval)

lemma detour_registry_sorted: "sortModulesByDependency detour_registry = [''c'', ''a'', ''b'']"
  by (simp add: detour_registry_def sort_eval)

lemma scenario_registry_sorted:
  "sortModulesByDependency scenario_registry = [''core/auth'', ''core/billing'', ''extra/reports'']"
  "sortModulesByDependency_log scenario_registry
     = [LogWarn ''Optional dependency extra/legacy for module extra/reports not found'']"
  by (simp_all add: scenario_registry_def sort_eval)

lemma chain_registry_edges: "depends_on chain_registry u v \<Longrightarrow> u = ''a'' \<and> v = ''b''"
  by (auto simp: depends_on_def chain_registry_def sort_eval split: if_splits)

lemma detour_registry_edges: "depends_on detour_registry u v \<Longrightarrow> u = ''a'' \<and> v = ''c''"
  by (auto simp: depends_on_def detour_registry_def sort_eval split: if_splits)

text \<open>
  C2. For every registry, whatever its modules declare (cycles, names that are not
  registered), \<open>sortModulesByDependency\<close> returns, and the array it returns holds every
  key of the registry exactly once and nothing else. That it returns is the termination
  proof of \<open>visit\<close> above: the function is total.
\<close>

theorem sortModulesByDependency_permutation:
  "distinct (sortModulesByDependency m) \<and>
   set (sortModulesByDependency m) = set (map_keys m)"
  by (simp add: sortModulesByDependency_def sort_run_facts)

theorem sortModulesByDependency_permutation_witness:
  "sortModulesByDependency cyclic_registry = [''b'', ''a''] \<and>
   distinct (sortModulesByDependency cyclic_registry) \<and>
   set (sortModulesByDependency cyclic_registry) = set (map_keys cyclic_registry)"
  using sortModulesByDependency_permutation[of cyclic_registry] cyclic_registry_sorted
  by simp

text \<open>
  C1, as the code has it. When module \<open>A\<close> declares a dependency named \<open>B\<close> (required
  or optional), \<open>B\<close> is registered, and \<open>B\<close> does not itself depend on \<open>A\<close>, directly or
  through other registered modules, then \<open>B\<close> stands before \<open>A\<close> in the array that
  \<open>sortModulesByDependency\<close> returns.
\<close>

theorem sortModulesByDependency_dependency_first:
  assumes "d \<in> set (declared_deps m A)" and "name d = B" and "map_has m B"
    and "(B, A) \<notin> (dep_rel m)\<^sup>*"
  shows "position (sortModulesByDependency m) B < position (sortModulesByDependency m) A"
proof -
  have "A \<in> set (sorted_ids (sort_run m))"
    using assms(1) by (simp add: sort_run_facts declared_deps_key)
  moreover have "depends_on m A B"
    using assms by (auto simp: depends_on_def)
  ultimately show ?thesis
    using sort_run_ordered[of m] assms(4)
    unfolding ordered_wrt_def sortModulesByDependency_def by blast
qed

theorem sortModulesByDependency_dependency_first_witness:
  "requires ''b'' \<in> set (declared_deps chain_registry ''a'') \<and>
   map_has chain_registry ''b'' \<and>
   (''b'', ''a'') \<notin> (dep_rel chain_registry)\<^sup>* \<and>
   position (sortModulesByDependency chain_registry) ''b''
     < position (sortModulesByDependency chain_registry) ''a''"
proof -
  have d: "requires ''b'' \<in> set (declared_deps chain_registry ''a'')"
    by (simp add: chain_registry_def sort_eval)
  have n: "name (requires ''b'') = ''b''" by (simp add: requires_def)
  have h: "map_has chain_registry ''b''" by (simp add: chain_registry_def sort_eval)
  have r: "(''b'', ''a'') \<notin> (dep_rel chain_registry)\<^sup>*"
  proof
    assume "(''b'', ''a'') \<in> (dep_rel chain_registry)\<^sup>*"
    then have "''a'' \<in> {''b''}"
      by (rule rtrancl_stays) (auto simp: dep_rel_def dest: chain_registry_edges)
    then show False by simp
  qed
  from sortModulesByDependency_dependency_first[OF d n h r] d h r show ?thesis by simp
qed

text \<open>
  C1 as stated fails for a mutual dependency: \<open>b\<close> requires \<open>a\<close>, \<open>a\<close> is registered,
  and \<open>a\<close> comes after \<open>b\<close>.
\<close>

theorem sortModulesByDependency_dependency_first_counterexample:
  "requires ''a'' \<in> set (declared_deps cyclic_registry ''b'') \<and>
   \<not> optional (requires ''a'') \<and> name (requires ''a'') = ''a'' \<and>
   map_has cyclic_registry ''a'' \<and>
   sortModulesByDependency cyclic_registry = [''b'', ''a''] \<and>
   \<not> position (sortModulesByDependency cyclic_registry) ''a''
       < position (sortModulesByDependency cyclic_registry) ''b''"
  unfolding cyclic_registry_sorted
  by (simp add: cyclic_registry_def sort_eval position_def)

text \<open>
  C9, as the code has it. When \<open>X\<close> stands before \<open>Y\<close> among the keys of the registry,
  and neither \<open>X\<close> nor any key before \<open>X\<close> depends on \<open>Y\<close> (directly or through other
  registered modules), then \<open>X\<close> stands before \<open>Y\<close> in the array that
  \<open>sortModulesByDependency\<close> returns.
\<close>

theorem sortModulesByDependency_registry_order:
  assumes "position (map_keys m) X < position (map_keys m) Y"
    and "\<forall>k \<in> set (take (Suc (position (map_keys m) X)) (map_keys m)).
           (k, Y) \<notin> (dep_rel m)\<^sup>*"
  shows "position (sortModulesByDependency m) X < position (sortModulesByDependency m) Y"
proof -
  let ?ks = "map_keys m"
  let ?pre = "take (Suc (position ?ks X)) ?ks"
  let ?post = "drop (Suc (position ?ks X)) ?ks"
  let ?mid = "visit_keys m ?pre sort_init"
  have lt: "position ?ks X < length ?ks"
    using assms(1) position_le[of ?ks Y] by simp
  have xin: "X \<in> set ?pre"
    using lt nth_position[OF lt] by (simp add: take_Suc_conv_app_nth)
  have "visit_keys m (?pre @ ?post) sort_init = visit_keys m ?post ?mid"
    by (rule visit_keys_append)
  then have run: "sort_run m = visit_keys m ?post ?mid"
    unfolding sort_run_def by simp
  from visit_keys_effect[of m ?pre sort_init] obtain e1 where
    a: "sorted_ids ?mid = e1" "visited ?mid = set e1" "set ?pre \<subseteq> visited ?mid"
    by (auto simp: sort_init_def)
  have "set (sorted_ids ?mid) \<subseteq> {j. \<exists>k \<in> set ?pre. (k, j) \<in> (dep_rel m)\<^sup>*}"
    using visit_keys_within_reach[of m ?pre sort_init] by (simp add: sort_init_def)
  then have yout: "Y \<notin> set e1" using assms(2) a by auto
  have xe: "X \<in> set e1" using xin a by auto
  from visit_keys_effect[of m ?post ?mid] obtain e2 where
    b: "sorted_ids (sort_run m) = e1 @ e2"
    unfolding run a by auto
  have "position (e1 @ e2) X < length e1"
    using xe by (simp add: position_append_in position_less_iff)
  moreover have "length e1 \<le> position (e1 @ e2) Y"
    using yout by (simp add: position_append_out)
  ultimately show ?thesis
    unfolding sortModulesByDependency_def b by simp
qed

theorem sortModulesByDependency_registry_order_witness:
  "position (map_keys detour_registry) ''a'' < position (map_keys detour_registry) ''b'' \<and>
   (''a'', ''b'') \<notin> (dep_rel detour_registry)\<^sup>* \<and>
   position (sortModulesByDependency detour_registry) ''a''
     < position (sortModulesByDependency detour_registry) ''b''"
proof -
  have p: "position (map_keys detour_registry) ''a'' < position (map_keys detour_registry) ''b''"
    by (simp add: detour_registry_def map_keys_def position_def)
  have r: "(''a'', ''b'') \<notin> (dep_rel detour_registry)\<^sup>*"
  proof
    assume "(''a'', ''b'') \<in> (dep_rel detour_registry)\<^sup>*"
    then have "''b'' \<in> {''a'', ''c''}"
      by (rule rtrancl_stays) (auto simp: dep_rel_def dest: detour_registry_edges)
    then show False by simp
  qed
  have t: "take (Suc (position (map_keys detour_registry) ''a'')) (map_keys detour_registry)
             = [''a'']"
    by (simp add: detour_registry_def map_keys_def position_def)
  have "\<forall>k \<in> set (take (Suc (position (map_keys detour_registry) ''a''))
                     (map_keys detour_registry)).
          (k, ''b'') \<notin> (dep_rel detour_registry)\<^sup>*"
    unfolding t using r by simp
  from sortModulesByDependency_registry_order[OF p this] p r show ?thesis by simp
qed

text \<open>
  C9 as stated fails: \<open>b\<close> and \<open>c\<close> do not depend on each other, \<open>b\<close> is registered
  before \<open>c\<close>, and \<open>c\<close> comes first because \<open>a\<close>, registered before both, requires it.
\<close>

theorem sortModulesByDependency_registry_order_counterexample:
  "(''b'', ''c'') \<notin> (dep_rel detour_registry)\<^sup>* \<and>
   (''c'', ''b'') \<notin> (dep_rel detour_registry)\<^sup>* \<and>
   position (map_keys detour_registry) ''b'' < position (map_keys detour_registry) ''c'' \<and>
   sortModulesByDependency detour_registry = [''c'', ''a'', ''b''] \<and>
   position (sortModulesByDependency detour_registry) ''c''
     < position (sortModulesByDependency detour_registry) ''b''"
proof -
  have 1: "(''b'', ''c'') \<notin> (dep_rel detour_registry)\<^sup>*"
  proof
    assume "(''b'', ''c'') \<in> (dep_rel detour_registry)\<^sup>*"
    then have "''c'' \<in> {''b''}"
      by (rule rtrancl_stays) (auto simp: dep_rel_def dest: detour_registry_edges)
    then show False by simp
  qed
  have 2: "(''c'', ''b'') \<notin> (dep_rel detour_registry)\<^sup>*"
  proof
    assume "(''c'', ''b'') \<in> (dep_rel detour_registry)\<^sup>*"
    then have "''b'' \<in> {''c''}"
      by (rule rtrancl_stays) (auto simp: dep_rel_def dest: detour_registry_edges)
    then show False by simp
  qed
  have 3: "position (map_keys detour_registry) ''b'' < position (map_keys detour_registry) ''c''"
    by (simp add: detour_registry_def map_keys_def position_def)
  show ?thesis
    using 1 2 3 unfolding detour_registry_sorted by (simp add: position_def)
qed

section \<open>Properties of the module loader\<close>

text \<open>
  \<open>Map.set\<close>, \<open>Map.get\<close> and \<open>Map.has\<close>.
\<close>

lemma map_fst_map_set:
  "map fst (map_set m k v) = (if k \<in> set (map fst m) then map fst m else map fst m @ [k])"
  by (induction m) (auto simp: rev_image_eqI)

lemma map_keys_map_set: "set (map_keys (map_set m k v)) = insert k (set (map_keys m))"
  unfolding map_keys_def map_fst_map_set by auto

lemma map_get_map_set_same: "map_get (map_set m k v) k = Some v"
  by (induction m) (auto simp: map_get_def)

lemma map_get_map_set_other: "k' \<noteq> k \<Longrightarrow> map_get (map_set m k v) k' = map_get m k'"
  by (induction m) (auto simp: map_get_def)

lemma map_has_keys: "map_has m k \<longleftrightarrow> k \<in> set (map_keys m)"
  by (simp add: map_has_def map_keys_def)

lemma map_get_None_keys: "map_get m k = None \<longleftrightarrow> k \<notin> set (map_keys m)"
  by (simp add: map_get_def map_keys_def map_of_eq_None_iff)

text \<open>
  The logger: a call only adds entries, whether it throws does not depend on the
  entries printed before, and the one-argument \<open>error(message)\<close> never throws.
\<close>

lemma RustStyleLogger_log_appends:
  "RustStyleLogger_log lvl message md entries
     = (fst (RustStyleLogger_log lvl message md []),
        entries @ snd (RustStyleLogger_log lvl message md []))"
  by (simp add: RustStyleLogger_log_def split: metadata.splits)

lemma RustStyleLogger_error_appends:
  "RustStyleLogger_error message error entries
     = (fst (RustStyleLogger_error message error []),
        entries @ snd (RustStyleLogger_error message error []))"
proof (cases error)
  case None
  then show ?thesis
    using RustStyleLogger_log_appends[of ERR message NoKeys entries]
    by (simp add: RustStyleLogger_error_def)
next
  case (Some e)
  then show ?thesis
    using RustStyleLogger_log_appends[of ERR _ _ entries]
    by (cases e) (simp_all add: RustStyleLogger_error_def)
qed

lemma RustStyleLogger_error_one_argument:
  "RustStyleLogger_error message None entries
     = (None, if shouldFilter message then entries else entries @ [LogError message])"
  by (simp add: RustStyleLogger_error_def RustStyleLogger_log_def)

lemma log_error_fields [simp]:
  "host (log_error msg L) = host L"
  "platformVersion (log_error msg L) = platformVersion L"
  "apiLevel (log_error msg L) = apiLevel L"
  "loadedModules (log_error msg L) = loadedModules L"
  "moduleRegistry (log_error msg L) = moduleRegistry L"
  "logger (log_error msg L)
     = (if shouldFilter msg then logger L else logger L @ [LogError msg])"
  by (simp_all add: log_error_def RustStyleLogger_error_one_argument)

lemma log_caught_fields:
  "host (snd (log_caught msg error L)) = host L"
  "platformVersion (snd (log_caught msg error L)) = platformVersion L"
  "apiLevel (snd (log_caught msg error L)) = apiLevel L"
  "loadedModules (snd (log_caught msg error L)) = loadedModules L"
  "moduleRegistry (snd (log_caught msg error L)) = moduleRegistry L"
  "logger (snd (log_caught msg error L))
     = logger L @ snd (RustStyleLogger_error msg (Some error) [])"
  "fst (log_caught msg error L) \<noteq> None \<longleftrightarrow> logger_throws msg error"
  using RustStyleLogger_error_appends[of msg "Some error" "logger L"]
  by (simp_all add: log_caught_def logger_throws_def)

text \<open>
  \<open>initializeModule\<close> on a registered module: the host state is the one the entry point
  leaves, the module is recorded as loaded exactly when the entry point completes, the
  log gets what \<open>logger.error\<close> prints for a failure, and the call rejects exactly when
  \<open>logger.error\<close> throws.
\<close>

lemma initializeModule_effect_all:
  assumes "map_get (moduleRegistry L) i = Some module"
    and "entry_point (moduleRegistry L) i (host L) = (r, h)"
  shows "host (snd (initializeModule L i)) = h
    \<and> moduleRegistry (snd (initializeModule L i)) = moduleRegistry L
    \<and> platformVersion (snd (initializeModule L i)) = platformVersion L
    \<and> apiLevel (snd (initializeModule L i)) = apiLevel L
    \<and> set (map_keys (loadedModules (snd (initializeModule L i))))
           = set (map_keys (loadedModules L)) \<union> (if r = None then {i} else {})
    \<and> logger (snd (initializeModule L i))
           = logger L @ (case r of None \<Rightarrow> [] | Some e \<Rightarrow> init_report i e)
    \<and> ((\<exists>exn. fst (initializeModule L i) = Inl exn)
           \<longleftrightarrow> (\<exists>e. r = Some e \<and> logger_throws (init_message i) e))"
proof -
  have c: "call_load (load (exports module)) (host L) = (r, h)"
    using assms by (simp add: entry_point_def)
  show ?thesis
  proof (cases r)
    case None
    then show ?thesis
      using assms(1) c by (simp add: initializeModule_def map_keys_map_set)
  next
    case (Some e)
    let ?L1 = "L\<lparr>host := h\<rparr>"
    obtain x L' where lc: "log_caught (init_message i) e ?L1 = (x, L')"
      by (cases "log_caught (init_message i) e ?L1")
    note f = log_caught_fields[where msg = "init_message i" and error = e and L = ?L1,
        unfolded lc]
    have s: "snd (initializeModule L i) = L'"
      using assms(1) c Some lc
      by (auto simp: initializeModule_def init_message_def split: option.splits)
    have t: "fst (initializeModule L i) = (case x of None \<Rightarrow> Inr False | Some exn \<Rightarrow> Inl exn)"
      using assms(1) c Some lc
      by (auto simp: initializeModule_def init_message_def split: option.splits)
    have "(\<exists>exn. fst (initializeModule L i) = Inl exn)
           \<longleftrightarrow> (\<exists>e. r = Some e \<and> logger_throws (init_message i) e)"
      using f(7) t Some by (auto split: option.splits)
    then show ?thesis
      using f s Some by (simp add: init_report_def)
  qed
qed

lemma initializeModule_effect:
  assumes "map_get (moduleRegistry L) i = Some module"
    and "entry_point (moduleRegistry L) i (host L) = (r, h)"
  shows "host (snd (initializeModule L i)) = h"
    and "moduleRegistry (snd (initializeModule L i)) = moduleRegistry L"
    and "platformVersion (snd (initializeModule L i)) = platformVersion L"
    and "apiLevel (snd (initializeModule L i)) = apiLevel L"
    and "set (map_keys (loadedModules (snd (initializeModule L i))))
           = set (map_keys (loadedModules L)) \<union> (if r = None then {i} else {})"
    and "logger (snd (initializeModule L i))
           = logger L @ (case r of None \<Rightarrow> [] | Some e \<Rightarrow> init_report i e)"
    and "(\<exists>exn. fst (initializeModule L i) = Inl exn)
           \<longleftrightarrow> (\<exists>e. r = Some e \<and> logger_throws (init_message i) e)"
  using initializeModule_effect_all[OF assms] by blast+

lemma initializeModule_unregistered:
  "map_get (moduleRegistry L) i = None \<Longrightarrow> initializeModule L i = (Inr False, L)"
  by (simp add: initializeModule_def)

lemma host_after_Cons:
  "host_after m (i # ids) h = host_after m ids (snd (entry_point m i h))"
  by (simp add: host_after_def)

lemma host_before_head: "host_before m (i # ids) h i = h"
  by (simp add: host_before_def host_after_def)

lemma host_before_tail:
  "j \<noteq> i \<Longrightarrow> host_before m (i # ids) h j = host_before m ids (snd (entry_point m i h)) j"
  by (simp add: host_before_def host_after_def)

lemma init_catch_returns_Cons:
  assumes "i \<notin> set ids"
  shows "init_catch_returns m (i # ids) h \<longleftrightarrow>
     (case fst (entry_point m i h) of
        None \<Rightarrow> True
      | Some error \<Rightarrow> \<not> logger_throws (init_message i) error) \<and>
     init_catch_returns m ids (snd (entry_point m i h))"
proof -
  have "host_before m (i # ids) h j = host_before m ids (snd (entry_point m i h)) j"
    if "j \<in> set ids" for j
  proof -
    have "j \<noteq> i" using that assms by auto
    then show ?thesis by (rule host_before_tail)
  qed
  then show ?thesis
    unfolding init_catch_returns_def
    by (simp add: host_before_head list_all_iff)
qed

text \<open>
  The loop over the resolved order. Whatever happens, the registry is unchanged, only
  registered modules are recorded as loaded, and the log grows.
\<close>

lemma initializeModules_any:
  "moduleRegistry (snd (initializeModules L ids)) = moduleRegistry L \<and>
   set (map_keys (loadedModules (snd (initializeModules L ids))))
     \<subseteq> set (map_keys (loadedModules L)) \<union> set (map_keys (moduleRegistry L)) \<and>
   set (logger L) \<subseteq> set (logger (snd (initializeModules L ids)))"
proof (induction ids arbitrary: L)
  case Nil
  show ?case by simp
next
  case (Cons i ids)
  let ?L1 = "snd (initializeModule L i)"
  have one: "moduleRegistry ?L1 = moduleRegistry L \<and>
      set (map_keys (loadedModules ?L1))
        \<subseteq> set (map_keys (loadedModules L)) \<union> set (map_keys (moduleRegistry L)) \<and>
      set (logger L) \<subseteq> set (logger ?L1)"
  proof (cases "map_get (moduleRegistry L) i")
    case None
    then show ?thesis by (simp add: initializeModule_unregistered)
  next
    case (Some module)
    obtain r h where rh: "entry_point (moduleRegistry L) i (host L) = (r, h)"
      by (cases "entry_point (moduleRegistry L) i (host L)")
    note e = initializeModule_effect[OF Some rh]
    have "i \<in> set (map_keys (moduleRegistry L))" using Some by (rule map_get_Some_keys)
    then show ?thesis using e by auto
  qed
  show ?case
  proof (cases "fst (initializeModule L i)")
    case (Inl exn)
    then have "initializeModules L (i # ids) = (Some exn, ?L1)"
      by (cases "initializeModule L i") simp
    then show ?thesis using one by simp
  next
    case (Inr b)
    then have "initializeModules L (i # ids) = initializeModules ?L1 ids"
      by (cases "initializeModule L i") simp
    then show ?thesis using one Cons.IH[of ?L1] by auto
  qed
qed

text \<open>
  When no failure makes the logger throw, the loop returns: every entry point of the
  order has been called, in order, and the modules recorded are those whose entry
  point completed.
\<close>

lemma initializeModules_effect:
  "distinct ids \<Longrightarrow> set ids \<subseteq> set (map_keys (moduleRegistry L)) \<Longrightarrow>
   init_catch_returns (moduleRegistry L) ids (host L) \<Longrightarrow>
   fst (initializeModules L ids) = None \<and>
   host (snd (initializeModules L ids)) = host_after (moduleRegistry L) ids (host L) \<and>
   set (map_keys (loadedModules (snd (initializeModules L ids))))
     = set (map_keys (loadedModules L))
       \<union> {i \<in> set ids.
            fst (entry_point (moduleRegistry L) i
                  (host_before (moduleRegistry L) ids (host L) i)) = None} \<and>
   (\<forall>i e. i \<in> set ids \<longrightarrow>
      fst (entry_point (moduleRegistry L) i
            (host_before (moduleRegistry L) ids (host L) i)) = Some e \<longrightarrow>
      set (init_report i e) \<subseteq> set (logger (snd (initializeModules L ids))))"
proof (induction ids arbitrary: L)
  case Nil
  then show ?case by (simp add: host_after_def)
next
  case (Cons i ids)
  let ?m = "moduleRegistry L"
  let ?L1 = "snd (initializeModule L i)"
  let ?R = "snd (initializeModules ?L1 ids)"
  obtain r h where rh: "entry_point ?m i (host L) = (r, h)" by (cases "entry_point ?m i (host L)")
  have "i \<in> set (map_keys ?m)" using Cons.prems by simp
  then obtain module where g: "map_get ?m i = Some module"
    using map_get_None_keys[of ?m i] by auto
  note e = initializeModule_effect[OF g rh]
  have d: "distinct ids" "i \<notin> set ids" using Cons.prems by auto
  have sub: "set ids \<subseteq> set (map_keys (moduleRegistry ?L1))" using Cons.prems e(2) by simp
  have c: "case r of None \<Rightarrow> True | Some error \<Rightarrow> \<not> logger_throws (init_message i) error"
    and cr: "init_catch_returns (moduleRegistry ?L1) ids (host ?L1)"
    using Cons.prems(3) rh unfolding init_catch_returns_Cons[OF d(2)] e(1,2) by simp_all
  have "\<not> (\<exists>exn. fst (initializeModule L i) = Inl exn)"
    unfolding e(7) using c by auto
  then obtain b where "fst (initializeModule L i) = Inr b"
    by (cases "fst (initializeModule L i)") auto
  then have step: "initializeModules L (i # ids) = initializeModules ?L1 ids"
    by (cases "initializeModule L i") simp
  from Cons.IH[OF d(1) sub cr] have
    ih0: "fst (initializeModules ?L1 ids) = None" and
    ih1: "host ?R = host_after ?m ids h" and
    ih3: "set (map_keys (loadedModules ?R))
           = set (map_keys (loadedModules ?L1))
             \<union> {j \<in> set ids. fst (entry_point ?m j (host_before ?m ids h j)) = None}" and
    ih4: "\<And>j e'. j \<in> set ids \<Longrightarrow>
           fst (entry_point ?m j (host_before ?m ids h j)) = Some e' \<Longrightarrow>
           set (init_report j e') \<subseteq> set (logger ?R)"
    unfolding e(1,2) by blast+
  have tail: "host_before ?m (i # ids) (host L) j = host_before ?m ids h j"
    if "j \<in> set ids" for j
  proof -
    have "j \<noteq> i" using that d(2) by auto
    then show ?thesis using rh by (simp add: host_before_tail)
  qed
  have s3: "{j \<in> set (i # ids). fst (entry_point ?m j (host_before ?m (i # ids) (host L) j)) = None}
      = (if r = None then {i} else {})
        \<union> {j \<in> set ids. fst (entry_point ?m j (host_before ?m ids h j)) = None}"
    using tail rh d(2) by (auto simp: host_before_head)
  have mono: "set (logger ?L1) \<subseteq> set (logger ?R)"
    using initializeModules_any[of ?L1 ids] by simp
  have 1: "fst (initializeModules L (i # ids)) = None"
    unfolding step by (rule ih0)
  have 2: "host (snd (initializeModules L (i # ids))) = host_after ?m (i # ids) (host L)"
    unfolding step using ih1 rh by (simp add: host_after_Cons)
  have 3: "set (map_keys (loadedModules (snd (initializeModules L (i # ids)))))
     = set (map_keys (loadedModules L))
       \<union> {j \<in> set (i # ids).
            fst (entry_point ?m j (host_before ?m (i # ids) (host L) j)) = None}"
    unfolding step s3 using ih3 e(5) by auto
  have 4: "set (init_report j e') \<subseteq> set (logger (snd (initializeModules L (i # ids))))"
    if j: "j \<in> set (i # ids)"
      and f: "fst (entry_point ?m j (host_before ?m (i # ids) (host L) j)) = Some e'"
    for j e'
  proof (cases "j = i")
    case True
    then have "r = Some e'" using f rh by (simp add: host_before_head)
    then have "set (init_report j e') \<subseteq> set (logger ?L1)"
      using e(6) True by simp
    then show ?thesis unfolding step using mono by blast
  next
    case False
    then have "j \<in> set ids" using j by simp
    then show ?thesis unfolding step using ih4[of j e'] f tail by simp
  qed
  from 1 2 3 4 show ?case by blast
qed


text \<open>\<open>validateManifest\<close> and \<open>loadModule\<close>: what they change and when they accept.\<close>

lemma first_missing_requiredFields:
  "first_missing mf requiredFields = None \<longleftrightarrow>
     truthy_string (manifest_name mf) \<and> truthy_string (version mf) \<and>
     truthy_int (api_level mf) \<and> truthy_string (target_platform mf)"
  by (simp add: requiredFields_def field_truthy_def)

lemma validateManifest_frame:
  "host (snd (validateManifest sat L mfo i)) = host L"
  "platformVersion (snd (validateManifest sat L mfo i)) = platformVersion L"
  "apiLevel (snd (validateManifest sat L mfo i)) = apiLevel L"
  "loadedModules (snd (validateManifest sat L mfo i)) = loadedModules L"
  "moduleRegistry (snd (validateManifest sat L mfo i)) = moduleRegistry L"
  by (simp_all add: validateManifest_def split: option.splits)

lemma validateManifest_accepts:
  "fst (validateManifest sat L (Some mf) i) \<longleftrightarrow>
     first_missing mf requiredFields = None \<and>
     (\<exists>n. api_level mf = Some n \<and> n \<le> apiLevel L) \<and>
     (\<exists>r. target_platform mf = Some r \<and> sat (platformVersion L) r)"
proof (cases "first_missing mf requiredFields")
  case None
  then obtain n r where "api_level mf = Some n" "target_platform mf = Some r"
    unfolding first_missing_requiredFields truthy_int_def truthy_string_def
    by (auto split: option.splits)
  then show ?thesis using None by (auto simp: validateManifest_def)
next
  case (Some field)
  then show ?thesis by (simp add: validateManifest_def)
qed

lemma loadModule_frame:
  "host (snd (loadModule env L i p)) = host L"
  "platformVersion (snd (loadModule env L i p)) = platformVersion L"
  "apiLevel (snd (loadModule env L i p)) = apiLevel L"
  "loadedModules (snd (loadModule env L i p)) = loadedModules L"
proof -
  have "host (snd (loadModule env L i p)) = host L \<and>
        platformVersion (snd (loadModule env L i p)) = platformVersion L \<and>
        apiLevel (snd (loadModule env L i p)) = apiLevel L \<and>
        loadedModules (snd (loadModule env L i p)) = loadedModules L"
  proof (cases "require_module env p")
    case (Inl err)
    obtain x L' where lc: "log_caught (''Error loading module '' @ i @ '':'') err L = (x, L')"
      by (cases "log_caught (''Error loading module '' @ i @ '':'') err L")
    note f = log_caught_fields[where msg = "''Error loading module '' @ i @ '':''"
        and error = err and L = L, unfolded lc]
    show ?thesis using Inl lc f by (cases x) (simp_all add: loadModule_def)
  next
    case (Inr ex)
    note r = this
    show ?thesis
    proof (cases "HeliactylModule ex")
      case None
      then show ?thesis using r by (simp add: loadModule_def)
    next
      case (Some mf)
      obtain b L' where v: "validateManifest (semver_satisfies env) L (Some mf) i = (b, L')"
        by (cases "validateManifest (semver_satisfies env) L (Some mf) i")
      have "host L' = host L" "platformVersion L' = platformVersion L"
        "apiLevel L' = apiLevel L" "loadedModules L' = loadedModules L"
        using validateManifest_frame[of "semver_satisfies env" L "Some mf" i] v by simp_all
      then show ?thesis using r Some v
        by (cases "load ex") (simp_all add: loadModule_def)
    qed
  qed
  then show "host (snd (loadModule env L i p)) = host L"
    "platformVersion (snd (loadModule env L i p)) = platformVersion L"
    "apiLevel (snd (loadModule env L i p)) = apiLevel L"
    "loadedModules (snd (loadModule env L i p)) = loadedModules L"
    by simp_all
qed

lemma loadModule_registry:
  "moduleRegistry (snd (loadModule env L i p)) =
     (if registers env (platformVersion L) (apiLevel L) p then
        (case require_module env p of
           Inr ex \<Rightarrow> (case HeliactylModule ex of
              Some mf \<Rightarrow> map_set (moduleRegistry L) i
                          \<lparr>module_id = i, path = p, exports = ex, manifest = mf\<rparr>
            | None \<Rightarrow> moduleRegistry L)
         | Inl _ \<Rightarrow> moduleRegistry L)
      else moduleRegistry L)"
proof (cases "require_module env p")
  case (Inl err)
  obtain x L' where lc: "log_caught (''Error loading module '' @ i @ '':'') err L = (x, L')"
    by (cases "log_caught (''Error loading module '' @ i @ '':'') err L")
  note f = log_caught_fields[where msg = "''Error loading module '' @ i @ '':''"
      and error = err and L = L, unfolded lc]
  show ?thesis using Inl lc f by (cases x) (simp_all add: loadModule_def registers_def)
next
  case (Inr ex)
  note r = this
  show ?thesis
  proof (cases "HeliactylModule ex")
    case None
    then show ?thesis using r by (simp add: loadModule_def registers_def)
  next
    case (Some mf)
    obtain b L' where v: "validateManifest (semver_satisfies env) L (Some mf) i = (b, L')"
      by (cases "validateManifest (semver_satisfies env) L (Some mf) i")
    have b: "b \<longleftrightarrow> first_missing mf requiredFields = None \<and>
     (\<exists>n. api_level mf = Some n \<and> n \<le> apiLevel L) \<and>
     (\<exists>r. target_platform mf = Some r \<and> semver_satisfies env (platformVersion L) r)"
      using validateManifest_accepts[of "semver_satisfies env" L mf i] v by simp
    have f: "moduleRegistry L' = moduleRegistry L"
      using validateManifest_frame(5)[of "semver_satisfies env" L "Some mf" i] v by simp
    show ?thesis
    proof (cases b)
      case False
      then have "\<not> registers env (platformVersion L) (apiLevel L) p"
        using b r Some unfolding registers_def by auto
      then show ?thesis using r Some v f False
        by (simp add: loadModule_def)
    next
      case True
      show ?thesis
      proof (cases "load ex")
        case NoLoad
        then have "\<not> registers env (platformVersion L) (apiLevel L) p"
          using r Some unfolding registers_def by auto
        then show ?thesis using r Some v f True NoLoad by (simp add: loadModule_def)
      next
        case NotFunction
        then have "\<not> registers env (platformVersion L) (apiLevel L) p"
          using r Some unfolding registers_def by auto
        then show ?thesis using r Some v f True NotFunction by (simp add: loadModule_def)
      next
        case (LoadFunction g)
        then have "registers env (platformVersion L) (apiLevel L) p"
          using r Some b True unfolding registers_def by auto
        then show ?thesis using r Some v f True LoadFunction by (simp add: loadModule_def)
      qed
    qed
  qed
qed

lemma loadModule_rejects:
  "(\<exists>exn. fst (loadModule env L i p) = Inl exn)
     \<longleftrightarrow> (\<exists>e. require_module env p = Inl e \<and> logger_throws (load_message i) e)"
proof (cases "require_module env p")
  case (Inl err)
  obtain x L' where lc: "log_caught (load_message i) err L = (x, L')"
    by (cases "log_caught (load_message i) err L")
  note f = log_caught_fields(7)[where msg = "load_message i" and error = err and L = L,
      unfolded lc]
  show ?thesis using Inl lc f
    by (cases x) (simp_all add: loadModule_def load_message_def)
next
  case (Inr ex)
  note r = this
  show ?thesis
  proof (cases "HeliactylModule ex")
    case None
    then show ?thesis using r by (simp add: loadModule_def)
  next
    case (Some mf)
    obtain b L' where v: "validateManifest (semver_satisfies env) L (Some mf) i = (b, L')"
      by (cases "validateManifest (semver_satisfies env) L (Some mf) i")
    show ?thesis using r Some v
      by (cases "load ex") (simp_all add: loadModule_def)
  qed
qed

text \<open>
  The loading loop. Whatever happens, only candidates that pass are registered; when
  no failure makes the logger throw the loop returns, the registry has the identifiers
  of all the candidates that pass, and a candidate whose identifier no other candidate
  has keeps its record.
\<close>

lemma loadModules_step:
  "loadModules env L (c # cs)
     = (case fst (loadModule env L (candidate_id c) (candidate_path c)) of
          Inl exn \<Rightarrow> (Some exn, snd (loadModule env L (candidate_id c) (candidate_path c)))
        | Inr loaded \<Rightarrow>
            loadModules env (snd (loadModule env L (candidate_id c) (candidate_path c))) cs)"
  by (cases "loadModule env L (candidate_id c) (candidate_path c)")
     (auto split: sum.splits)

lemma loadModule_keys:
  "set (map_keys (moduleRegistry (snd (loadModule env L i p))))
      = set (map_keys (moduleRegistry L))
        \<union> (if registers env (platformVersion L) (apiLevel L) p then {i} else {})"
  unfolding loadModule_registry
  by (auto simp: registers_def map_keys_map_set)

lemma loadModules_frame:
  "host (snd (loadModules env L cs)) = host L \<and>
   platformVersion (snd (loadModules env L cs)) = platformVersion L \<and>
   apiLevel (snd (loadModules env L cs)) = apiLevel L \<and>
   loadedModules (snd (loadModules env L cs)) = loadedModules L"
proof (induction cs arbitrary: L)
  case Nil
  show ?case by simp
next
  case (Cons c cs)
  show ?case
    unfolding loadModules_step
    using Cons.IH[of "snd (loadModule env L (candidate_id c) (candidate_path c))"]
    by (simp add: loadModule_frame split: sum.splits)
qed

lemma loadModules_keys_any:
  "set (map_keys (moduleRegistry (snd (loadModules env L cs))))
     \<subseteq> set (map_keys (moduleRegistry L))
       \<union> {candidate_id c | c. c \<in> set cs \<and>
            registers env (platformVersion L) (apiLevel L) (candidate_path c)}"
proof (induction cs arbitrary: L)
  case Nil
  then show ?case by simp
next
  case (Cons c cs)
  let ?L1 = "snd (loadModule env L (candidate_id c) (candidate_path c))"
  note k = loadModule_keys[of env L "candidate_id c" "candidate_path c"]
  show ?case
  proof (cases "fst (loadModule env L (candidate_id c) (candidate_path c))")
    case (Inl exn)
    then show ?thesis unfolding loadModules_step using k by (auto split: if_splits)
  next
    case (Inr b)
    then have "loadModules env L (c # cs) = loadModules env ?L1 cs"
      unfolding loadModules_step by simp
    then show ?thesis
      using Cons.IH[of ?L1] k by (auto simp: loadModule_frame split: if_splits)
  qed
qed

lemma loadModules_keys:
  "load_catch_returns env cs \<Longrightarrow>
   fst (loadModules env L cs) = None \<and>
   set (map_keys (moduleRegistry (snd (loadModules env L cs))))
     = set (map_keys (moduleRegistry L))
       \<union> {candidate_id c | c. c \<in> set cs \<and>
            registers env (platformVersion L) (apiLevel L) (candidate_path c)}"
proof (induction cs arbitrary: L)
  case Nil
  then show ?case by simp
next
  case (Cons c cs)
  let ?L1 = "snd (loadModule env L (candidate_id c) (candidate_path c))"
  note k = loadModule_keys[of env L "candidate_id c" "candidate_path c"]
  have "\<not> (\<exists>exn. fst (loadModule env L (candidate_id c) (candidate_path c)) = Inl exn)"
    unfolding loadModule_rejects using Cons.prems
    by (auto simp: load_catch_returns_def)
  then obtain b where "fst (loadModule env L (candidate_id c) (candidate_path c)) = Inr b"
    by (cases "fst (loadModule env L (candidate_id c) (candidate_path c))") auto
  then have step: "loadModules env L (c # cs) = loadModules env ?L1 cs"
    unfolding loadModules_step by simp
  have "load_catch_returns env cs" using Cons.prems by (simp add: load_catch_returns_def)
  from Cons.IH[OF this, of ?L1] show ?case
    unfolding step using k by (auto simp: loadModule_frame split: if_splits)
qed

lemma loadModules_other:
  "k \<notin> candidate_id ` set cs \<Longrightarrow>
   map_get (moduleRegistry (snd (loadModules env L cs))) k = map_get (moduleRegistry L) k"
proof (induction cs arbitrary: L)
  case Nil
  then show ?case by simp
next
  case (Cons c cs)
  let ?L1 = "snd (loadModule env L (candidate_id c) (candidate_path c))"
  have one: "map_get (moduleRegistry ?L1) k = map_get (moduleRegistry L) k"
    unfolding loadModule_registry using Cons.prems
    by (auto simp: map_get_map_set_other split: sum.splits option.splits)
  have "map_get (moduleRegistry (snd (loadModules env ?L1 cs))) k = map_get (moduleRegistry ?L1) k"
    using Cons by simp
  then show ?case unfolding loadModules_step using one by (simp split: sum.splits)
qed

lemma loadModules_registered:
  assumes "load_catch_returns env cs"
    and "distinct (map candidate_id cs)" and "c \<in> set cs"
    and "registers env (platformVersion L) (apiLevel L) (candidate_path c)"
    and "require_module env (candidate_path c) = Inr ex" and "HeliactylModule ex = Some mf"
  shows "map_get (moduleRegistry (snd (loadModules env L cs))) (candidate_id c)
           = Some \<lparr>module_id = candidate_id c, path = candidate_path c,
                   exports = ex, manifest = mf\<rparr>"
  using assms(1,2,3,4)
proof (induction cs arbitrary: L)
  case Nil
  then show ?case by simp
next
  case (Cons c0 cs)
  let ?L1 = "snd (loadModule env L (candidate_id c0) (candidate_path c0))"
  have "\<not> (\<exists>exn. fst (loadModule env L (candidate_id c0) (candidate_path c0)) = Inl exn)"
    unfolding loadModule_rejects using Cons.prems(1)
    by (auto simp: load_catch_returns_def)
  then obtain b where "fst (loadModule env L (candidate_id c0) (candidate_path c0)) = Inr b"
    by (cases "fst (loadModule env L (candidate_id c0) (candidate_path c0))") auto
  then have step: "loadModules env L (c0 # cs) = loadModules env ?L1 cs"
    unfolding loadModules_step by simp
  have rest: "load_catch_returns env cs"
    using Cons.prems(1) by (simp add: load_catch_returns_def)
  show ?case
  proof (cases "c = c0")
    case True
    have "candidate_id c \<notin> candidate_id ` set cs" using Cons.prems(2) True by auto
    then have "map_get (moduleRegistry (snd (loadModules env ?L1 cs))) (candidate_id c)
        = map_get (moduleRegistry ?L1) (candidate_id c)"
      by (rule loadModules_other)
    also have "\<dots> = Some \<lparr>module_id = candidate_id c, path = candidate_path c,
                   exports = ex, manifest = mf\<rparr>"
      unfolding loadModule_registry using True Cons.prems(4) assms(5,6)
      by (simp add: map_get_map_set_same)
    finally show ?thesis unfolding step .
  next
    case False
    then have "c \<in> set cs" using Cons.prems(3) by simp
    moreover have "distinct (map candidate_id cs)" using Cons.prems(2) by simp
    moreover have "registers env (platformVersion ?L1) (apiLevel ?L1) (candidate_path c)"
      using Cons.prems(4) by (simp add: loadModule_frame)
    ultimately show ?thesis unfolding step using Cons.IH[OF rest, of ?L1] by simp
  qed
qed

text \<open>
  \<open>loadAllModules\<close> from a new loader. Whatever happens, a module recorded as loaded
  is registered and a registered module is a candidate that passes the checks.
\<close>

lemma loadAllModules_any:
  assumes "R = snd (loadAllModules env (ModuleLoader_new h0 pv al) cands)"
  shows "set (map_keys (loadedModules R)) \<subseteq> set (map_keys (moduleRegistry R))"
    and "set (map_keys (moduleRegistry R))
           \<subseteq> {candidate_id c | c. c \<in> set cands \<and> registers env pv al (candidate_path c)}"
proof -
  let ?L0 = "ModuleLoader_new h0 pv al"
  let ?L1 = "snd (loadModules env ?L0 cands)"
  let ?L2 = "?L1\<lparr>logger := logger ?L1 @ sortModulesByDependency_log (moduleRegistry ?L1)\<rparr>"
  let ?L3 = "snd (initializeModules ?L2 (sortModulesByDependency (moduleRegistry ?L1)))"
  have k1: "set (map_keys (moduleRegistry ?L1))
      \<subseteq> {candidate_id c | c. c \<in> set cands \<and> registers env pv al (candidate_path c)}"
    using loadModules_keys_any[of env ?L0 cands]
    by (simp add: ModuleLoader_new_def map_keys_def)
  have l1: "loadedModules ?L1 = []"
    using loadModules_frame[of env ?L0 cands] by (simp add: ModuleLoader_new_def)
  have a: "moduleRegistry ?L3 = moduleRegistry ?L1"
    "set (map_keys (loadedModules ?L3)) \<subseteq> set (map_keys (moduleRegistry ?L1))"
    using initializeModules_any[of ?L2 "sortModulesByDependency (moduleRegistry ?L1)"] l1
    by (simp_all add: map_keys_def)
  have R: "R = ?L1 \<or> R = ?L3"
    unfolding assms loadAllModules_def Let_def
    by (cases "loadModules env ?L0 cands")
       (auto split: option.splits prod.splits)
  have "set (map_keys (loadedModules ?L1)) \<subseteq> set (map_keys (moduleRegistry ?L1))"
    unfolding l1 by (simp add: map_keys_def)
  moreover have "set (map_keys (loadedModules ?L3)) \<subseteq> set (map_keys (moduleRegistry ?L3))"
    unfolding a(1) by (rule a(2))
  ultimately show "set (map_keys (loadedModules R)) \<subseteq> set (map_keys (moduleRegistry R))"
    using R by blast
  show "set (map_keys (moduleRegistry R))
           \<subseteq> {candidate_id c | c. c \<in> set cands \<and> registers env pv al (candidate_path c)}"
    using R a(1) k1 by auto
qed

text \<open>When no failure makes the logger throw, \<open>loadAllModules\<close> returns.\<close>

lemma loadAllModules_effect:
  assumes R_def: "R = snd (loadAllModules env (ModuleLoader_new h0 pv al) cands)"
    and m_def: "m = moduleRegistry (snd (loadModules env (ModuleLoader_new h0 pv al) cands))"
    and lc: "load_catch_returns env cands"
    and ic: "init_catch_returns m (sortModulesByDependency m) h0"
  shows "moduleRegistry R = m"
    and "fst (loadAllModules env (ModuleLoader_new h0 pv al) cands) = Inr (loadedModules R)"
    and "host R = host_after m (sortModulesByDependency m) h0"
    and "set (map_keys (loadedModules R))
          = {i \<in> set (map_keys m).
               fst (entry_point m i (host_before m (sortModulesByDependency m) h0 i)) = None}"
    and "set (sortModulesByDependency_log m) \<subseteq> set (logger R)"
    and "\<And>i e. i \<in> set (map_keys m) \<Longrightarrow>
           fst (entry_point m i (host_before m (sortModulesByDependency m) h0 i)) = Some e \<Longrightarrow>
           set (init_report i e) \<subseteq> set (logger R)"
proof -
  let ?L0 = "ModuleLoader_new h0 pv al"
  obtain L1 where l: "loadModules env ?L0 cands = (None, L1)"
    using loadModules_keys[OF lc, of ?L0] by (cases "loadModules env ?L0 cands") auto
  have m: "m = moduleRegistry L1" unfolding m_def l by simp
  let ?L2 = "L1\<lparr>logger := logger L1 @ sortModulesByDependency_log m\<rparr>"
  let ?order = "sortModulesByDependency m"
  let ?L3 = "snd (initializeModules ?L2 ?order)"
  have d: "distinct ?order" and s: "set ?order = set (map_keys m)"
    by (simp_all add: sortModulesByDependency_def sort_run_facts)
  have f: "host ?L2 = h0" "loadedModules ?L2 = []"
    using loadModules_frame[of env ?L0 cands] unfolding l
    by (simp_all add: ModuleLoader_new_def)
  have reg: "moduleRegistry ?L2 = m" by (simp add: m)
  have sub: "set ?order \<subseteq> set (map_keys (moduleRegistry ?L2))" using s reg by simp
  have ic2: "init_catch_returns (moduleRegistry ?L2) ?order (host ?L2)"
    unfolding reg f(1) by (rule ic)
  from initializeModules_effect[OF d sub ic2] have
    e0: "fst (initializeModules ?L2 ?order) = None" and
    e1: "host ?L3 = host_after m ?order h0" and
    e3: "set (map_keys (loadedModules ?L3))
          = {i \<in> set ?order. fst (entry_point m i (host_before m ?order h0 i)) = None}" and
    e5: "\<And>i e. i \<in> set ?order \<Longrightarrow>
           fst (entry_point m i (host_before m ?order h0 i)) = Some e \<Longrightarrow>
           set (init_report i e) \<subseteq> set (logger ?L3)"
    unfolding reg f by (simp_all add: map_keys_def)
  have all: "loadAllModules env ?L0 cands = (Inr (loadedModules ?L3), ?L3)"
  proof -
    obtain x L3 where i: "initializeModules ?L2 ?order = (x, L3)"
      by (cases "initializeModules ?L2 ?order")
    then have "x = None" using e0 by simp
    then show ?thesis
      unfolding loadAllModules_def Let_def l using i unfolding m by simp
  qed
  then have R: "R = ?L3" unfolding R_def by simp
  have a: "moduleRegistry ?L3 = m" "set (logger ?L2) \<subseteq> set (logger ?L3)"
    using initializeModules_any[of ?L2 ?order] reg by simp_all
  show "moduleRegistry R = m" unfolding R by (rule a(1))
  show "fst (loadAllModules env ?L0 cands) = Inr (loadedModules R)"
    unfolding R all by simp
  show "host R = host_after m ?order h0" unfolding R by (rule e1)
  show "set (map_keys (loadedModules R))
          = {i \<in> set (map_keys m). fst (entry_point m i (host_before m ?order h0 i)) = None}"
    unfolding R using e3 s by simp
  show "set (sortModulesByDependency_log m) \<subseteq> set (logger R)"
    unfolding R using a(2) by simp
  show "\<And>i e. i \<in> set (map_keys m) \<Longrightarrow>
           fst (entry_point m i (host_before m ?order h0 i)) = Some e \<Longrightarrow>
           set (init_report i e) \<subseteq> set (logger R)"
    unfolding R using e5 s by simp
qed

text \<open>
  The registry after the loading loop is the registry of the loader that
  \<open>loadAllModules\<close> leaves, when the loading loop returns.
\<close>

lemma loadAllModules_registry:
  assumes "load_catch_returns env cands"
  shows "moduleRegistry (snd (loadAllModules env L cands))
           = moduleRegistry (snd (loadModules env L cands))"
proof -
  obtain L1 where l: "loadModules env L cands = (None, L1)"
    using loadModules_keys[OF assms, of L] by (cases "loadModules env L cands") auto
  let ?L2 = "L1\<lparr>logger := logger L1 @ sortModulesByDependency_log (moduleRegistry L1)\<rparr>"
  let ?run = "initializeModules ?L2 (sortModulesByDependency (moduleRegistry L1))"
  have "snd (loadAllModules env L cands) = snd ?run"
    unfolding loadAllModules_def Let_def l
    by (cases ?run) (auto split: option.splits)
  then show ?thesis
    using initializeModules_any[of ?L2 "sortModulesByDependency (moduleRegistry L1)"]
    unfolding l by simp
qed


text \<open>
  The examples, evaluated.
\<close>

lemmas loader_eval =
  loadAllModules_def loadModule_def validateManifest_def requiredFields_def
  field_truthy_def truthy_string_def truthy_int_def initializeModule_def call_load_def
  log_error_def log_caught_def ModuleLoader_new_def Let_def example_env_def candidate_of_def

lemmas catch_eval =
  load_catch_returns_def init_catch_returns_def logger_throws_def load_message_def
  init_message_def entry_point_def host_before_def host_after_def






lemma lonely_loaded_run:
  "snd (loadModules (lonely_env required) (ModuleLoader_new () ''10.0.0'' 4) [candidate_of ''a''])
     = (ModuleLoader_new () ''10.0.0'' 4)\<lparr>moduleRegistry := lonely_loaded required\<rparr>"
  by (simp add: lonely_env_def lonely_loaded_def loader_eval example_exports_def
        example_manifest_def)

lemma lonely_load_returns: "load_catch_returns (lonely_env required) [candidate_of ''a'']"
  by (simp add: lonely_env_def catch_eval example_env_def candidate_of_def)

lemma lonely_run_registry:
  "moduleRegistry (snd (lonely_result required)) = lonely_loaded required"
  unfolding lonely_result_def loadAllModules_registry[OF lonely_load_returns] lonely_loaded_run
  by simp

lemma lonely_entry_point: "entry_point (lonely_loaded required) ''a'' h = (None, h)"
  by (simp add: lonely_loaded_def entry_point_def map_get_def call_load_def
        example_exports_def)

lemma gating_load_returns: "load_catch_returns gating_env gating_cands"
  by (simp add: gating_env_def gating_cands_def catch_eval example_env_def candidate_of_def)

lemma gating_result_value:
  "fst gating_result = Inr (loadedModules (snd gating_result))"
  "map_keys (loadedModules (snd gating_result)) = [''ok'']"
  "map_keys (moduleRegistry (snd gating_result)) = [''ok'']"
  by (simp_all add: gating_result_def gating_env_def gating_cands_def zero_exports_def
        high_exports_def loader_eval sort_eval)

section \<open>The module loader: C6, C7, C8 and C10\<close>

text \<open>
  C10. \<open>validateManifest\<close> returns false for every manifest in which one of the four
  required fields is missing or falsy: \<open>name\<close>, \<open>version\<close> or \<open>target_platform\<close> the
  empty string, or \<open>api_level\<close> the number 0. For each field, result and log entry are
  those of the manifest with the field missing.
\<close>

theorem validateManifest_rejects_falsy:
  "(manifest_name mf = None \<or> manifest_name mf = Some [] \<or>
    version mf = None \<or> version mf = Some [] \<or>
    api_level mf = None \<or> api_level mf = Some 0 \<or>
    target_platform mf = None \<or> target_platform mf = Some []
      \<longrightarrow> \<not> fst (validateManifest sat L (Some mf) i)) \<and>
   validateManifest sat L (Some (mf\<lparr>manifest_name := Some []\<rparr>)) i
     = validateManifest sat L (Some (mf\<lparr>manifest_name := None\<rparr>)) i \<and>
   validateManifest sat L (Some (mf\<lparr>version := Some []\<rparr>)) i
     = validateManifest sat L (Some (mf\<lparr>version := None\<rparr>)) i \<and>
   validateManifest sat L (Some (mf\<lparr>api_level := Some 0\<rparr>)) i
     = validateManifest sat L (Some (mf\<lparr>api_level := None\<rparr>)) i \<and>
   validateManifest sat L (Some (mf\<lparr>target_platform := Some []\<rparr>)) i
     = validateManifest sat L (Some (mf\<lparr>target_platform := None\<rparr>)) i"
proof (intro conjI impI)
  assume "manifest_name mf = None \<or> manifest_name mf = Some [] \<or>
    version mf = None \<or> version mf = Some [] \<or>
    api_level mf = None \<or> api_level mf = Some 0 \<or>
    target_platform mf = None \<or> target_platform mf = Some []"
  then have "first_missing mf requiredFields \<noteq> None"
    unfolding first_missing_requiredFields truthy_string_def truthy_int_def by auto
  then show "\<not> fst (validateManifest sat L (Some mf) i)"
    by (simp add: validateManifest_accepts)
next
  show "validateManifest sat L (Some (mf\<lparr>manifest_name := Some []\<rparr>)) i
     = validateManifest sat L (Some (mf\<lparr>manifest_name := None\<rparr>)) i"
    by (simp add: validateManifest_def requiredFields_def field_truthy_def truthy_string_def)
next
  show "validateManifest sat L (Some (mf\<lparr>version := Some []\<rparr>)) i
     = validateManifest sat L (Some (mf\<lparr>version := None\<rparr>)) i"
    by (simp add: validateManifest_def requiredFields_def field_truthy_def truthy_string_def)
next
  show "validateManifest sat L (Some (mf\<lparr>api_level := Some 0\<rparr>)) i
     = validateManifest sat L (Some (mf\<lparr>api_level := None\<rparr>)) i"
    by (simp add: validateManifest_def requiredFields_def field_truthy_def truthy_int_def)
next
  show "validateManifest sat L (Some (mf\<lparr>target_platform := Some []\<rparr>)) i
     = validateManifest sat L (Some (mf\<lparr>target_platform := None\<rparr>)) i"
    by (simp add: validateManifest_def requiredFields_def field_truthy_def truthy_string_def)
qed

theorem validateManifest_rejects_falsy_witness:
  "validateManifest (\<lambda>v r. v = r) (ModuleLoader_new () ''10.0.0'' 4)
     (Some ((example_manifest ''zero'' None)\<lparr>api_level := Some 0\<rparr>)) ''zero''
   = (False, (ModuleLoader_new () ''10.0.0'' 4)
        \<lparr>logger := [LogError ''Module zero is missing required manifest field: api_level'']\<rparr>)"
proof -
  have "\<not> fst (validateManifest (\<lambda>v r. v = r) (ModuleLoader_new () ''10.0.0'' 4)
     (Some ((example_manifest ''zero'' None)\<lparr>api_level := Some 0\<rparr>)) ''zero'')"
    using validateManifest_rejects_falsy[of "(example_manifest ''zero'' None)\<lparr>api_level := Some 0\<rparr>"
        "\<lambda>v r. v = r" "ModuleLoader_new () ''10.0.0'' 4" "''zero''", THEN conjunct1]
    by simp
  moreover have "snd (validateManifest (\<lambda>v r. v = r) (ModuleLoader_new () ''10.0.0'' 4)
     (Some ((example_manifest ''zero'' None)\<lparr>api_level := Some 0\<rparr>)) ''zero'')
     = (ModuleLoader_new () ''10.0.0'' 4)
        \<lparr>logger := [LogError ''Module zero is missing required manifest field: api_level'']\<rparr>"
    by (simp add: loader_eval example_manifest_def RustStyleLogger_error_def
          RustStyleLogger_log_def shouldFilter_def ERROR_FILTERS_patterns_def)
  ultimately show ?thesis by (simp add: prod_eq_iff)
qed




text \<open>
  An entry point that rejects with a value that \<open>JSON.stringify\<close> cannot serialize, a
  cyclic object: \<open>logger.error\<close> throws in the \<open>catch\<close> of \<open>initializeModule\<close>,
  \<open>loadAllModules\<close> rejects with that exception, and the entry point of \<open>good\<close>, which
  comes later in the order, is never called.
\<close>

lemma loadAllModules_rejects_when_logger_throws:
  "fst (noisy_result (Unserializable ''Converting circular structure to JSON''))
     = Inl (ErrorObject ''Converting circular structure to JSON'') \<and>
   sortModulesByDependency
     (moduleRegistry (snd (noisy_result (Unserializable ''Converting circular structure to JSON''))))
     = [''bad'', ''good''] \<and>
   host (snd (noisy_result (Unserializable ''Converting circular structure to JSON'')))
     = [''bad''] \<and>
   loadedModules (snd (noisy_result (Unserializable ''Converting circular structure to JSON'')))
     = []"
  by (simp add: noisy_result_def noisy_env_def noisy_cands_def noisy_exports_def
        loader_eval sort_eval)

text \<open>
  C7, as the code has it. \<open>loadAllModules\<close> from a new loader, in a run where no value
  that \<open>require\<close> or an entry point throws makes \<open>logger.error\<close> throw in the \<open>catch\<close>
  that reports it. A registered module that declares a dependency whose name is not
  registered is still in the resolved order. The missing dependency is logged as a
  warning when it is optional; when it is required it is logged as an error, unless
  the line contains one of the logger's filter patterns. \<open>loadAllModules\<close> returns the
  map of loaded modules, and the module is in it exactly when its own entry point
  completes without error.
\<close>

theorem missing_dependency_not_blocking:
  assumes "R = snd (loadAllModules env (ModuleLoader_new h0 pv al) cands)"
    and "m = moduleRegistry R"
    and "order = sortModulesByDependency m"
    and "load_catch_returns env cands"
    and "init_catch_returns m order h0"
    and "d \<in> set (declared_deps m i)" and "\<not> map_has m (name d)"
  shows "i \<in> set order \<and>
         (if optional d then
            LogWarn (''Optional dependency '' @ name d @ '' for module '' @ i @ '' not found'')
              \<in> set (logger R)
          else
            shouldFilter (''Required dependency '' @ name d @ '' for module '' @ i @ '' not found'')
            \<or> LogError (''Required dependency '' @ name d @ '' for module '' @ i @ '' not found'')
              \<in> set (logger R)) \<and>
         fst (loadAllModules env (ModuleLoader_new h0 pv al) cands) = Inr (loadedModules R) \<and>
         map_has (loadedModules R) i
           = (fst (entry_point m i (host_before m order h0 i)) = None)"
proof -
  have m: "m = moduleRegistry (snd (loadModules env (ModuleLoader_new h0 pv al) cands))"
    unfolding assms(1,2) by (rule loadAllModules_registry[OF assms(4)])
  note e = loadAllModules_effect[OF assms(1) m assms(4) assms(5)[unfolded assms(3)]]
  have k: "i \<in> set (map_keys m)" using assms(6) by (rule declared_deps_key)
  then have 1: "i \<in> set order"
    unfolding assms(3) by (simp add: sortModulesByDependency_def sort_run_facts)
  have "set (report_missing i d) \<subseteq> set (sortModulesByDependency_log m)"
    unfolding sortModulesByDependency_log_def using assms(6,7) by (rule sort_run_reports)
  then have 2: "set (report_missing i d) \<subseteq> set (logger R)"
    using e(5) by blast
  have 3: "map_has (loadedModules R) i
           = (fst (entry_point m i (host_before m order h0 i)) = None)"
    unfolding map_has_keys assms(3) using e(4) k by auto
  show ?thesis using 1 2 3 e(2) unfolding report_missing_def by (simp split: if_splits)
qed

theorem missing_dependency_not_blocking_witness:
  "''a'' \<in> set (sortModulesByDependency (moduleRegistry (snd (lonely_result ''gone'')))) \<and>
   LogError ''Required dependency gone for module a not found''
     \<in> set (logger (snd (lonely_result ''gone''))) \<and>
   LogWarn ''Optional dependency absent for module a not found''
     \<in> set (logger (snd (lonely_result ''gone''))) \<and>
   fst (lonely_result ''gone'') = Inr (loadedModules (snd (lonely_result ''gone''))) \<and>
   map_has (loadedModules (snd (lonely_result ''gone''))) ''a''"
proof -
  let ?R = "snd (lonely_result ''gone'')"
  let ?m = "moduleRegistry ?R"
  have m: "?m = lonely_loaded ''gone''" by (rule lonely_run_registry)
  have R: "?R = snd (loadAllModules (lonely_env ''gone'') (ModuleLoader_new () ''10.0.0'' 4)
                  [candidate_of ''a''])"
    by (simp add: lonely_result_def)
  have deps: "declared_deps ?m ''a'' = [requires ''gone'', optionally ''absent'']"
    unfolding m by (simp add: lonely_loaded_def declared_deps_def map_get_def example_manifest_def)
  have gone: "\<not> map_has ?m (name (requires ''gone''))"
    unfolding m by (simp add: lonely_loaded_def map_has_def requires_def)
  have absent: "\<not> map_has ?m (name (optionally ''absent''))"
    unfolding m by (simp add: lonely_loaded_def map_has_def optionally_def)
  have ord: "sortModulesByDependency ?m = [''a'']"
    unfolding m by (simp add: lonely_loaded_def sort_eval)
  have ic: "init_catch_returns ?m (sortModulesByDependency ?m) ()"
    unfolding ord unfolding m
    by (simp add: init_catch_returns_def lonely_entry_point)
  have nf: "\<not> shouldFilter ''Required dependency gone for module a not found''"
    by (simp add: shouldFilter_def ERROR_FILTERS_patterns_def)
  have ep: "fst (entry_point ?m ''a'' h) = None" for h
    unfolding m by (simp add: lonely_entry_point)
  have dg: "requires ''gone'' \<in> set (declared_deps ?m ''a'')" by (simp add: deps)
  have da: "optionally ''absent'' \<in> set (declared_deps ?m ''a'')" by (simp add: deps)
  note t1 = missing_dependency_not_blocking[OF R refl refl lonely_load_returns ic dg gone]
  note t2 = missing_dependency_not_blocking[OF R refl refl lonely_load_returns ic da absent]
  have 1: "''a'' \<in> set (sortModulesByDependency ?m) \<and>
     LogError ''Required dependency gone for module a not found'' \<in> set (logger ?R) \<and>
     fst (lonely_result ''gone'') = Inr (loadedModules ?R) \<and>
     map_has (loadedModules ?R) ''a''"
    using t1 nf ep by (simp add: requires_def lonely_result_def)
  have 2: "LogWarn ''Optional dependency absent for module a not found'' \<in> set (logger ?R)"
    using t2 by (simp add: optionally_def)
  from 1 2 show ?thesis by simp
qed

text \<open>
  C7 as stated fails for a required dependency whose name contains a filter pattern
  of the logger: \<open>a\<close> requires \<open>fetch handler\<close>, which is not registered, \<open>a\<close> is in
  the order and is loaded, and no error is logged: the log holds the warning for the
  optional dependency and nothing else.
\<close>

theorem missing_dependency_not_blocking_counterexample:
  "declared_deps (moduleRegistry (snd (lonely_result ''fetch handler''))) ''a''
     = [\<lparr>name = ''fetch handler'', optional = False\<rparr>,
        \<lparr>name = ''absent'', optional = True\<rparr>] \<and>
   \<not> map_has (moduleRegistry (snd (lonely_result ''fetch handler''))) ''fetch handler'' \<and>
   sortModulesByDependency (moduleRegistry (snd (lonely_result ''fetch handler''))) = [''a''] \<and>
   map_keys (loadedModules (snd (lonely_result ''fetch handler''))) = [''a''] \<and>
   logger (snd (lonely_result ''fetch handler''))
     = [LogWarn ''Optional dependency absent for module a not found'']"
  by (simp add: lonely_result_def lonely_env_def loader_eval sort_eval)

text \<open>
  C6, as the code has it. Among candidates with distinct identifiers, one whose
  manifest declares an \<open>api_level\<close> above the host's is neither registered nor loaded,
  however the run ends. In a run where no value that \<open>require\<close> or an entry point throws
  makes \<open>logger.error\<close> throw in the \<open>catch\<close> that reports it, \<open>loadAllModules\<close> returns
  the map of loaded modules, and a candidate whose \<open>api_level\<close> is not 0 and at most the
  host's, whose \<open>name\<close>, \<open>version\<close> and \<open>target_platform\<close> are non-empty strings, whose
  \<open>target_platform\<close> the host version satisfies, and whose \<open>load\<close> is a function that
  completes without error on the host state it is called on, is in that map.
\<close>

theorem manifest_gating:
  assumes "distinct (map candidate_id cands)" and "c \<in> set cands"
    and "require_module env (candidate_path c) = Inr ex"
    and "HeliactylModule ex = Some mf" and "api_level mf = Some n"
    and "R = snd (loadAllModules env (ModuleLoader_new h0 pv al) cands)"
    and "m = moduleRegistry R"
    and "order = sortModulesByDependency m"
  shows "(al < n \<longrightarrow>
            \<not> map_has (moduleRegistry R) (candidate_id c) \<and>
            \<not> map_has (loadedModules R) (candidate_id c)) \<and>
         (load_catch_returns env cands \<and> init_catch_returns m order h0 \<and>
          n \<le> al \<and> n \<noteq> 0 \<and>
          (\<exists>s. manifest_name mf = Some s \<and> s \<noteq> []) \<and>
          (\<exists>s. version mf = Some s \<and> s \<noteq> []) \<and>
          (\<exists>r. target_platform mf = Some r \<and> r \<noteq> [] \<and> semver_satisfies env pv r) \<and>
          (\<exists>f. load ex = LoadFunction f \<and>
                fst (f (host_before m order h0 (candidate_id c))) = None)
            \<longrightarrow> fst (loadAllModules env (ModuleLoader_new h0 pv al) cands)
                  = Inr (loadedModules R) \<and>
                map_has (loadedModules R) (candidate_id c))"
proof (intro conjI impI)
  let ?L0 = "ModuleLoader_new h0 pv al"
  note any = loadAllModules_any[OF assms(6)]
  {
    assume "al < n"
    then have "\<not> registers env pv al (candidate_path c)"
      using assms(3,4,5) unfolding registers_def by auto
    moreover have "c' = c" if "c' \<in> set cands" "candidate_id c' = candidate_id c" for c'
      using that assms(1,2) by (meson distinct_map inj_onD)
    ultimately have "candidate_id c \<notin> set (map_keys (moduleRegistry R))"
      using any(2) by auto
    then show "\<not> map_has (moduleRegistry R) (candidate_id c)"
      and "\<not> map_has (loadedModules R) (candidate_id c)"
      using any(1) by (auto simp: map_has_keys)
  }
  {
    assume a: "load_catch_returns env cands \<and> init_catch_returns m order h0 \<and>
          n \<le> al \<and> n \<noteq> 0 \<and>
          (\<exists>s. manifest_name mf = Some s \<and> s \<noteq> []) \<and>
          (\<exists>s. version mf = Some s \<and> s \<noteq> []) \<and>
          (\<exists>r. target_platform mf = Some r \<and> r \<noteq> [] \<and> semver_satisfies env pv r) \<and>
          (\<exists>f. load ex = LoadFunction f \<and>
                fst (f (host_before m order h0 (candidate_id c))) = None)"
    then have lc: "load_catch_returns env cands" and ic: "init_catch_returns m order h0"
      by simp_all
    have m: "m = moduleRegistry (snd (loadModules env ?L0 cands))"
      unfolding assms(6,7) by (rule loadAllModules_registry[OF lc])
    note e = loadAllModules_effect[OF assms(6) m lc ic[unfolded assms(8)]]
    have L0: "platformVersion ?L0 = pv" "apiLevel ?L0 = al"
      by (simp_all add: ModuleLoader_new_def)
    from a obtain f where f: "load ex = LoadFunction f"
      "fst (f (host_before m order h0 (candidate_id c))) = None" by auto
    have "first_missing mf requiredFields = None"
      using a assms(5)
      unfolding first_missing_requiredFields truthy_string_def truthy_int_def by auto
    then have reg: "registers env (platformVersion ?L0) (apiLevel ?L0) (candidate_path c)"
      unfolding registers_def L0 using a assms(3,4,5) f(1) by auto
    have g: "map_get m (candidate_id c)
           = Some \<lparr>module_id = candidate_id c, path = candidate_path c,
                   exports = ex, manifest = mf\<rparr>"
      unfolding m by (rule loadModules_registered[OF lc assms(1,2) reg assms(3,4)])
    then have k: "candidate_id c \<in> set (map_keys m)" by (rule map_get_Some_keys)
    have "fst (entry_point m (candidate_id c) (host_before m order h0 (candidate_id c))) = None"
      using g f by (simp add: entry_point_def call_load_def)
    then have "candidate_id c \<in> set (map_keys (loadedModules R))"
      using e(4) k unfolding assms(8) by simp
    then show "map_has (loadedModules R) (candidate_id c)"
      by (simp add: map_has_keys)
    show "fst (loadAllModules env ?L0 cands) = Inr (loadedModules R)"
      by (rule e(2))
  }
qed

theorem manifest_gating_witness:
  "\<not> map_has (moduleRegistry (snd gating_result)) ''high'' \<and>
   \<not> map_has (loadedModules (snd gating_result)) ''high'' \<and>
   fst gating_result = Inr (loadedModules (snd gating_result)) \<and>
   map_has (loadedModules (snd gating_result)) ''ok''"
proof -
  let ?R = "snd gating_result"
  let ?m = "moduleRegistry ?R"
  have d: "distinct (map candidate_id gating_cands)"
    by (simp add: gating_cands_def candidate_of_def)
  have R: "?R = snd (loadAllModules gating_env (ModuleLoader_new () ''10.0.0'' 4) gating_cands)"
    by (simp add: gating_result_def)
  have hc: "candidate_of ''high'' \<in> set gating_cands" by (simp add: gating_cands_def)
  have oc: "candidate_of ''ok'' \<in> set gating_cands" by (simp add: gating_cands_def)
  have hi: "require_module gating_env (candidate_path (candidate_of ''high'')) = Inr high_exports"
    by (simp add: gating_env_def example_env_def candidate_of_def)
  have hm: "HeliactylModule high_exports
              = Some ((example_manifest ''high'' None)\<lparr>api_level := Some 5\<rparr>)"
    by (simp add: high_exports_def)
  have hn: "api_level ((example_manifest ''high'' None)\<lparr>api_level := Some 5\<rparr>) = Some 5"
    by simp
  have ok: "require_module gating_env (candidate_path (candidate_of ''ok''))
              = Inr (example_exports ''ok'' None)"
    by (simp add: gating_env_def example_env_def candidate_of_def)
  have om: "HeliactylModule (example_exports ''ok'' None :: unit module_exports)
              = Some (example_manifest ''ok'' None)"
    by (simp add: example_exports_def)
  have on: "api_level (example_manifest ''ok'' None) = Some 4"
    by (simp add: example_manifest_def)
  have reg: "?m = [(''ok'', \<lparr>module_id = ''ok'', path = ''ok.js'',
                     exports = example_exports ''ok'' None,
                     manifest = example_manifest ''ok'' None\<rparr>)]"
    by (simp add: gating_result_def gating_env_def gating_cands_def zero_exports_def
          high_exports_def loader_eval sort_eval)
  have ic: "init_catch_returns ?m (sortModulesByDependency ?m) ()"
    unfolding reg
    by (simp add: sort_eval init_catch_returns_def entry_point_def call_load_def)
  have 1: "\<not> map_has (moduleRegistry ?R) ''high'' \<and> \<not> map_has (loadedModules ?R) ''high''"
    using manifest_gating[OF d hc hi hm hn R refl refl, THEN conjunct1]
    by (simp add: candidate_of_def)
  have 2: "fst gating_result = Inr (loadedModules ?R) \<and> map_has (loadedModules ?R) ''ok''"
    using manifest_gating[OF d oc ok om on R refl refl, THEN conjunct2] ic gating_load_returns
    by (simp add: candidate_of_def example_manifest_def example_exports_def gating_env_def
          example_env_def gating_result_def)
  from 1 2 show ?thesis by simp
qed

text \<open>
  C6 as stated fails for \<open>api_level\<close> 0: it is at most the host's level 4, the other
  required fields are present, the range is satisfied and \<open>load\<close> completes, the run
  returns the map of loaded modules, and the module is not in it.
\<close>

theorem manifest_gating_counterexample:
  "require_module gating_env (candidate_path (candidate_of ''zero'')) = Inr zero_exports \<and>
   api_level (the (HeliactylModule zero_exports)) = Some 0 \<and>
   (0 :: int) \<le> 4 \<and>
   manifest_name (the (HeliactylModule zero_exports)) = Some ''zero'' \<and>
   version (the (HeliactylModule zero_exports)) = Some ''1.0.0'' \<and>
   target_platform (the (HeliactylModule zero_exports)) = Some ''10.0.0'' \<and>
   semver_satisfies gating_env ''10.0.0'' ''10.0.0'' \<and>
   load zero_exports = LoadFunction (\<lambda>h. (None, h)) \<and>
   fst gating_result = Inr (loadedModules (snd gating_result)) \<and>
   \<not> map_has (loadedModules (snd gating_result)) ''zero''"
  by (simp add: gating_result_value map_has_keys)
     (simp add: gating_env_def example_env_def candidate_of_def zero_exports_def
        example_manifest_def)

section \<open>Properties of the configuration store\<close>

lemma console_error_fields [simp]:
  "configStore (console_error msg st) = configStore st"
  "heap (console_error msg st) = heap st"
  "watchers (console_error msg st) = watchers st"
  "console (console_error msg st) = console st @ [LogError msg]"
  by (simp_all add: console_error_def)

text \<open>
  Nothing removes or replaces an entry of \<open>configStore\<close>: the change handler does not
  touch the store, and \<open>loadConfig\<close> only adds a path that has no entry.
\<close>

lemma on_change_store:
  "configStore (snd (on_change env fs p a st)) = configStore st"
  by (simp add: on_change_def split: sum.splits)

lemma fire_store: "configStore (fire env fs p ws st) = configStore st"
  by (induction ws arbitrary: st) (auto simp: on_change_store)

lemma loadConfig_cached:
  "map_get (configStore st) (resolve env p) = Some e \<Longrightarrow>
   loadConfig env fs st p = (Inr (data e), st)"
  by (simp add: loadConfig_def)

lemma loadConfig_success:
  assumes "loadConfig env fs st p = (Inr a, st1)"
  shows "\<exists>e. map_get (configStore st1) (resolve env p) = Some e \<and> data e = a"
proof (cases "map_get (configStore st) (resolve env p)")
  case (Some e)
  then show ?thesis using assms by (auto simp: loadConfig_def)
next
  case None
  then show ?thesis using assms
    by (auto simp: loadConfig_def Let_def map_get_map_set_same
          split: if_splits sum.splits prod.splits)
qed

lemma loadConfig_keeps:
  assumes "map_get (configStore st) k = Some e"
  shows "map_get (configStore (snd (loadConfig env fs st p))) k = Some e"
proof (cases "map_get (configStore st) (resolve env p)")
  case (Some e')
  then show ?thesis using assms by (simp add: loadConfig_def)
next
  case None
  then have "k \<noteq> resolve env p" using assms by auto
  then show ?thesis using assms None
    by (auto simp: loadConfig_def Let_def map_get_map_set_other
          split: if_splits sum.splits prod.splits)
qed

lemma config_step_keeps:
  "map_get (configStore st) k = Some e \<Longrightarrow>
   map_get (configStore (config_step env st ev)) k = Some e"
  by (cases ev) (simp_all add: loadConfig_keeps fire_store)

lemma config_run_keeps:
  "map_get (configStore st) k = Some e \<Longrightarrow>
   map_get (configStore (config_run env st evs)) k = Some e"
  by (induction evs arbitrary: st) (simp_all add: config_step_keeps)

text \<open>
  The merge of a table of scalars with distinct keys into a live object: what every key
  of the object is afterwards. A key of the new table has its new value. A key that the
  new table does not have is gone, unless \<open>Object.prototype\<close> has a method of that
  name: then an own property of that name stays as it was. No other object changes.
\<close>

lemma map_of_js_set: "map_of (js_set obj k v) = (map_of obj)(k \<mapsto> v)"
  by (induction obj) (auto simp: fun_upd_twist)

lemma map_of_filter_keys:
  "map_of (filter (\<lambda>(key, _). P key) obj) k = (if P k then map_of obj k else None)"
  by (induction obj) auto

lemma update_keys_scalars:
  assumes "t < length h" and "\<forall>(k, v) \<in> set rest. scalar_value v \<noteq> None"
    and "distinct (map fst rest)"
  shows "length (update_keys h t rest) = length h \<and>
         (\<forall>a. a \<noteq> t \<longrightarrow> heap_get (update_keys h t rest) a = heap_get h a) \<and>
         (\<forall>k. map_of (heap_get (update_keys h t rest) t) k
              = (case map_of rest k of
                   Some v \<Rightarrow> scalar_value v
                 | None \<Rightarrow> map_of (heap_get h t) k))"
  using assms
proof (induction rest arbitrary: h)
  case Nil
  then show ?case by simp
next
  case (Cons kv rest)
  obtain k0 v0 where kv: "kv = (k0, v0)" by (cases kv)
  from Cons.prems(2) kv obtain jv where jv: "scalar_value v0 = Some jv" by auto
  let ?h1 = "heap_put h t (js_set (heap_get h t) k0 jv)"
  have step: "update_keys h t (kv # rest) = update_keys ?h1 t rest"
    using jv kv by (cases v0) auto
  have l1: "length ?h1 = length h" by (simp add: heap_put_def)
  have g1: "heap_get ?h1 t = js_set (heap_get h t) k0 jv"
    using Cons.prems(1) by (simp add: heap_put_def heap_get_def)
  have o1: "heap_get ?h1 a = heap_get h a" if "a \<noteq> t" for a
    using that by (simp add: heap_put_def heap_get_def)
  have p1: "t < length ?h1" using Cons.prems(1) l1 by simp
  have p2: "\<forall>(k, v) \<in> set rest. scalar_value v \<noteq> None" using Cons.prems(2) by simp
  have p3: "distinct (map fst rest)" using Cons.prems(3) by simp
  from Cons.IH[OF p1 p2 p3] have
    ih1: "length (update_keys ?h1 t rest) = length ?h1" and
    ih2: "\<And>a. a \<noteq> t \<Longrightarrow> heap_get (update_keys ?h1 t rest) a = heap_get ?h1 a" and
    ih3: "\<And>k. map_of (heap_get (update_keys ?h1 t rest) t) k
              = (case map_of rest k of
                   Some v \<Rightarrow> scalar_value v
                 | None \<Rightarrow> map_of (heap_get ?h1 t) k)"
    by blast+
  have fresh: "map_of rest k0 = None"
    using Cons.prems(3) kv by (simp add: map_of_eq_None_iff)
  have "map_of (heap_get (update_keys ?h1 t rest) t) k
          = (case map_of (kv # rest) k of
               Some v \<Rightarrow> scalar_value v
             | None \<Rightarrow> map_of (heap_get h t) k)" for k
  proof (cases "k = k0")
    case True
    then show ?thesis
      unfolding ih3 g1 map_of_js_set using fresh kv jv by simp
  next
    case False
    then show ?thesis
      unfolding ih3 g1 map_of_js_set using kv by (simp split: option.splits)
  qed
  then show ?case
    unfolding step using ih1 ih2 l1 o1 by simp
qed

lemma updateObjectInPlace_scalars:
  assumes "t < length h" and "\<forall>(k, v) \<in> set source. scalar_value v \<noteq> None"
    and "distinct (map fst source)"
  shows "map_of (heap_get (updateObjectInPlace h t source) t) k =
           (case map_of source k of
              Some v \<Rightarrow> scalar_value v
            | None \<Rightarrow> if k \<in> set Object_prototype_keys then map_of (heap_get h t) k else None)"
    and "a \<noteq> t \<Longrightarrow> heap_get (updateObjectInPlace h t source) a = heap_get h a"
    and "length (updateObjectInPlace h t source) = length h"
proof -
  let ?h0 = "heap_put h t (filter (\<lambda>(key, _). js_in key source) (heap_get h t))"
  have l0: "t < length ?h0" using assms(1) by (simp add: heap_put_def)
  have g0: "heap_get ?h0 t = filter (\<lambda>(key, _). js_in key source) (heap_get h t)"
    using assms(1) by (simp add: heap_put_def heap_get_def)
  from update_keys_scalars[OF l0 assms(2,3)] have
    u1: "length (update_keys ?h0 t source) = length ?h0" and
    u2: "\<And>a. a \<noteq> t \<Longrightarrow> heap_get (update_keys ?h0 t source) a = heap_get ?h0 a" and
    u3: "\<And>k. map_of (heap_get (update_keys ?h0 t source) t) k
              = (case map_of source k of
                   Some v \<Rightarrow> scalar_value v
                 | None \<Rightarrow> map_of (heap_get ?h0 t) k)"
    by blast+
  show "map_of (heap_get (updateObjectInPlace h t source) t) k =
           (case map_of source k of
              Some v \<Rightarrow> scalar_value v
            | None \<Rightarrow> if k \<in> set Object_prototype_keys then map_of (heap_get h t) k else None)"
  proof (cases "map_of source k")
    case None
    then have "k \<notin> set (map fst source)" by (simp add: map_of_eq_None_iff)
    then have "js_in k source \<longleftrightarrow> k \<in> set Object_prototype_keys"
      by (simp add: js_in_def)
    then show ?thesis
      using None by (simp add: u3 g0 map_of_filter_keys)
  next
    case (Some v)
    then show ?thesis by (simp add: u3)
  qed
  show "heap_get (updateObjectInPlace h t source) a = heap_get h a" if "a \<noteq> t"
    using u2[OF that] that by (simp add: heap_put_def heap_get_def)
  show "length (updateObjectInPlace h t source) = length h"
    using u1 by (simp add: heap_put_def)
qed

text \<open>
  The examples, evaluated.
\<close>

lemmas config_eval =
  loadConfig_def on_change_def readFileSync_def existsSync_def console_error_def
  initial_load_failed_def hot_reload_failed_def map_get_def heap_get_def heap_put_def
  js_in_def js_get_def Object_prototype_keys_def Let_def
  demo_env_def demo_fs_def config_empty_def demo_loaded_def

lemma demo_first_load:
  "loadConfig demo_env (demo_fs ''a = 1'') config_empty ''config.toml'' = (Inr 0, demo_loaded)"
  by (simp add: config_eval)

lemma demo_reload:
  "config_run demo_env demo_loaded [Changed (demo_fs ''a = 2'') ''/srv/config.toml'']
     = demo_loaded\<lparr>heap := [[(''a'', JNumber 2)]]\<rparr>"
  by (simp add: config_eval)

section \<open>The configuration store: C3, C4 and C5\<close>

text \<open>
  C4. After a call of \<open>loadConfig\<close> that returned the live object for a path, and
  after any further calls and change events, a call with a path that resolves to the
  same absolute path returns the same object, whatever the file system holds then, and
  leaves the state as it is: no object is created and no watcher is added.
\<close>

theorem loadConfig_returns_cached:
  assumes "loadConfig env fs st p = (Inr a, st1)" and "resolve env p' = resolve env p"
  shows "loadConfig env fs' (config_run env st1 evs) p'
           = (Inr a, config_run env st1 evs)"
proof -
  from loadConfig_success[OF assms(1)] obtain e where
    e: "map_get (configStore st1) (resolve env p) = Some e" "data e = a"
    by auto
  have "map_get (configStore (config_run env st1 evs)) (resolve env p') = Some e"
    unfolding assms(2) using e(1) by (rule config_run_keeps)
  from loadConfig_cached[OF this] e(2) show ?thesis by simp
qed

theorem loadConfig_returns_cached_witness:
  "loadConfig demo_env (demo_fs ''a = 1'') config_empty ''config.toml'' = (Inr 0, demo_loaded) \<and>
   loadConfig demo_env (\<lambda>p. Missing)
       (config_run demo_env demo_loaded [Changed (demo_fs ''a = 2'') ''/srv/config.toml''])
       ''config.toml''
     = (Inr 0, demo_loaded\<lparr>heap := [[(''a'', JNumber 2)]]\<rparr>)"
  using loadConfig_returns_cached[OF demo_first_load refl,
      of "\<lambda>p. Missing" "[Changed (demo_fs ''a = 2'') ''/srv/config.toml'']"]
    demo_first_load
  unfolding demo_reload by simp



text \<open>
  C3. The merge deletes an own key of the live object only when \<open>key in source\<close> is
  false, and \<open>in\<close> also finds what the new tree inherits from \<open>Object.prototype\<close>. The
  live object \<open>{a: 1, toString: 2}\<close> merged with the parsed \<open>{a: 1}\<close> keeps its key
  \<open>toString\<close>, which the new tree does not have.
\<close>

theorem updateObjectInPlace_keeps_inherited_name:
  "updateObjectInPlace [[(''a'', JNumber 1), (''toString'', JNumber 2)]] 0 [(''a'', TInteger 1)]
     = [[(''a'', JNumber 1), (''toString'', JNumber 2)]]"
  by (simp add: config_eval)

text \<open>
  A key that \<open>Object.prototype\<close> does not have is deleted, and a nested table is merged
  into the nested object where it is: the object at address 0 is still what the key
  \<open>b\<close> refers to.
\<close>

lemma updateObjectInPlace_removes_key:
  "updateObjectInPlace [[(''a'', JNumber 1), (''b'', JNumber 2)]] 0 [(''a'', TInteger 1)]
     = [[(''a'', JNumber 1)]]"
  by (simp add: config_eval)

lemma updateObjectInPlace_merges_nested:
  "updateObjectInPlace [[(''c'', JNumber 2)], [(''a'', JNumber 1), (''b'', JObject 0)]] 1
       [(''a'', TInteger 1), (''b'', TTable [(''c'', TInteger 3)])]
     = [[(''c'', JNumber 3)], [(''a'', JNumber 1), (''b'', JObject 0)]]"
  by (simp add: config_eval)

end
